theory Spec2Isabelle
  imports Main
begin

section \<open>JavaScript values\<close>

text \<open>
  The values that travel through \<^verbatim>\<open>src/api/index.js\<close>: parsed JSON (results,
  error payloads, blocks, transactions, operations, call parameters) and the
  functions that callers pass as callbacks. Numbers are the integers the node
  sends (block numbers, ids); an object is the list of its own properties, read
  with \<open>map_of\<close>; a function is named by a handle.
\<close>

datatype jsval =
    JUndefined
  | JNull
  | JBool bool
  | JNum int
  | JStr string
  | JArr "jsval list"
  | JObj "(string \<times> jsval) list"
  | JFun nat

text \<open>What \<^verbatim>\<open>if (v)\<close>, \<^verbatim>\<open>v || w\<close> and \<^verbatim>\<open>v && w\<close> test.\<close>

fun truthy :: "jsval \<Rightarrow> bool" where
  "truthy JUndefined = False"
| "truthy JNull = False"
| "truthy (JBool b) = b"
| "truthy (JNum n) = (n \<noteq> 0)"
| "truthy (JStr s) = (s \<noteq> [])"
| "truthy (JArr xs) = True"
| "truthy (JObj kvs) = True"
| "truthy (JFun f) = True"

text \<open>
  An inbound frame after \<^verbatim>\<open>JSON.parse\<close>: its \<^verbatim>\<open>id\<close>, its \<^verbatim>\<open>result\<close> and
  \<^verbatim>\<open>error\<close> members (\<open>JUndefined\<close> when the frame has none) and whatever
  else it carries.
\<close>

record frame =
  msg_id :: int
  msg_result :: jsval
  msg_error :: jsval
  msg_other :: "(string \<times> jsval) list"

datatype error =
    TypeError
    \<comment> \<open>reading a property of \<^verbatim>\<open>undefined\<close>/\<^verbatim>\<open>null\<close>, or calling what is not a function\<close>
  | ClosedBeforeOperation
    \<comment> \<open>\<^verbatim>\<open>'The WS connection was closed before this operation was made'\<close>\<close>
  | ClosedWhilePending
    \<comment> \<open>\<^verbatim>\<open>'The WS connection was closed while this request was pending'\<close>\<close>
  | Failed jsval frame
    \<comment> \<open>\<^verbatim>\<open>err\<close> of \<^verbatim>\<open>onMessage\<close>: the head of its message text, and \<^verbatim>\<open>err.payload\<close>\<close>
  | Remote jsval
    \<comment> \<open>an error handed to a stream by the call it polls\<close>

text \<open>
  \<^verbatim>\<open>v.k\<close> for the property names the program reads (\<^verbatim>\<open>message\<close>,
  \<^verbatim>\<open>transactions\<close>, \<^verbatim>\<open>operations\<close>), which no string, number, boolean, array
  or function has. Reading a property of \<^verbatim>\<open>undefined\<close> or \<^verbatim>\<open>null\<close> throws.
\<close>

fun get_prop :: "jsval \<Rightarrow> string \<Rightarrow> error + jsval" where
  "get_prop JUndefined k = Inl TypeError"
| "get_prop JNull k = Inl TypeError"
| "get_prop (JObj kvs) k = Inr (case map_of kvs k of None \<Rightarrow> JUndefined | Some v \<Rightarrow> v)"
| "get_prop v k = Inr JUndefined"

text \<open>
  A handler either runs to its end or throws: the exception, if any, and the
  state where it left. \<^verbatim>\<open>xs.forEach(f)\<close> stops at the first exception.
\<close>

type_synonym 's eff = "'s \<Rightarrow> error option \<times> 's"

fun forEach :: "('a \<Rightarrow> 's eff) \<Rightarrow> 'a list \<Rightarrow> 's eff" where
  "forEach f [] s = (None, s)"
| "forEach f (x # xs) s =
     (case f x s of
        (Some e, s') \<Rightarrow> (Some e, s')
      | (None, s') \<Rightarrow> forEach f xs s')"

text \<open>\<^verbatim>\<open>v.forEach(f)\<close> on a value: only an array has the method.\<close>

fun js_forEach :: "jsval \<Rightarrow> (jsval \<Rightarrow> 's eff) \<Rightarrow> 's eff" where
  "js_forEach (JArr xs) f s = forEach f xs s"
| "js_forEach v f s = (Some TypeError, s)"


section \<open>The streaming pipeline\<close>

text \<open>
  \<^verbatim>\<open>streamBlockNumber\<close>, \<^verbatim>\<open>streamBlock\<close>, \<^verbatim>\<open>streamTransactions\<close> and
  \<^verbatim>\<open>streamOperations\<close> are closures over a few variables. The record holds
  those variables, the calls that are in flight, and the trace of what the
  stream did to the outside: the calls it started and the invocations of the
  caller's callback.
\<close>

datatype cursor = Unset | Number int
  \<comment> \<open>\<^verbatim>\<open>let current = ''\<close>, later a block number\<close>

fun truthy_cursor :: "cursor \<Rightarrow> bool" where
  "truthy_cursor Unset = False"
| "truthy_cursor (Number n) = (n \<noteq> 0)"

datatype 'a cbarg = Err error | Ok 'a
  \<comment> \<open>\<^verbatim>\<open>callback(err)\<close> and \<^verbatim>\<open>callback(null, x)\<close>\<close>

datatype action =
    GetProps              \<comment> \<open>\<^verbatim>\<open>this.getDynamicGlobalPropertiesAsync()\<close>\<close>
  | Delay nat             \<comment> \<open>\<^verbatim>\<open>Promise.delay(ts)\<close>\<close>
  | GetBlock int          \<comment> \<open>\<^verbatim>\<open>this.getBlock(current, callback)\<close>\<close>
  | Callback "jsval cbarg" \<comment> \<open>the caller's callback\<close>
  | Uncaught error        \<comment> \<open>an exception that left a handler\<close>

record props =
  head_block_number :: int
  last_irreversible_block_num :: int

record stream =
  current :: cursor       \<comment> \<open>of \<^verbatim>\<open>streamBlockNumber\<close>\<close>
  running :: bool
  sb_current :: cursor    \<comment> \<open>\<^verbatim>\<open>current\<close> of \<^verbatim>\<open>streamBlock\<close>\<close>
  sb_last :: cursor       \<comment> \<open>\<^verbatim>\<open>last\<close> of \<^verbatim>\<open>streamBlock\<close>\<close>
  polls :: nat            \<comment> \<open>property calls in flight\<close>
  timers :: nat           \<comment> \<open>delays not yet elapsed\<close>
  fetching :: "int list"  \<comment> \<open>block fetches in flight\<close>
  trace :: "action list"

definition act :: "action \<Rightarrow> stream \<Rightarrow> stream" where
  "act a s = s\<lparr>trace := trace s @ [a]\<rparr>"

text \<open>The function every stream returns: \<^verbatim>\<open>() => { running = false; }\<close>.\<close>

definition release :: "stream \<Rightarrow> stream" where
  "release s = s\<lparr>running := False\<rparr>"

text \<open>The caller's callback only shows in the trace.\<close>

definition user_callback :: "jsval cbarg \<Rightarrow> stream eff" where
  "user_callback a s = (None, act (Callback a) s)"

subsection \<open>streamBlockNumber\<close>

text \<open>
  \<^verbatim>\<open>
  for (let i = current; i < blockId; i++) {
    if (i !== current) { callback(null, i); }
    current = i;
  }\<close>
\<close>

function for_loop :: "(int cbarg \<Rightarrow> stream eff) \<Rightarrow> int \<Rightarrow> int \<Rightarrow> stream eff" where
  "for_loop callback i blockId s =
     (if i < blockId then
        (case (if Number i \<noteq> current s then callback (Ok i) s else (None, s)) of
           (Some e, s') \<Rightarrow> (Some e, s')
         | (None, s') \<Rightarrow> for_loop callback (i + 1) blockId (s'\<lparr>current := Number i\<rparr>))
      else (None, s))"
  by pat_completeness auto
termination
  by (relation "measure (\<lambda>(callback, i, blockId, s). nat (blockId - i))") auto

declare for_loop.simps [simp del]

text \<open>\<^verbatim>\<open>update\<close>: one poll, unless the stream was released.\<close>

definition update :: "stream \<Rightarrow> stream" where
  "update s =
     (if \<not> running s then s
      else act GetProps (s\<lparr>polls := polls s + 1\<rparr>))"

text \<open>
  What the poll's promise does with a block number:
  \<^verbatim>\<open>if (blockId !== current) { if (current) { for ... } else { ... } }\<close>.
\<close>

definition observe :: "(int cbarg \<Rightarrow> stream eff) \<Rightarrow> int \<Rightarrow> stream eff" where
  "observe callback blockId s =
     (if Number blockId \<noteq> current s then
        (if truthy_cursor (current s) then
           (case current s of
              Number c \<Rightarrow> for_loop callback c blockId s
            | Unset \<Rightarrow> (None, s))
         else callback (Ok blockId) (s\<lparr>current := Number blockId\<rparr>))
      else (None, s))"

text \<open>
  The two handlers of the poll's promise. An exception in the first one leaves
  before \<^verbatim>\<open>Promise.delay(ts)\<close>.
\<close>

definition poll_resolved ::
  "string \<Rightarrow> nat \<Rightarrow> (int cbarg \<Rightarrow> stream eff) \<Rightarrow> props \<Rightarrow> stream eff" where
  "poll_resolved mode ts callback result s =
     (let blockId = (if mode = ''irreversible''
                     then last_irreversible_block_num result
                     else head_block_number result)
      in case observe callback blockId s of
           (Some e, s') \<Rightarrow> (Some e, s')
         | (None, s') \<Rightarrow> (None, act (Delay ts) (s'\<lparr>timers := timers s' + 1\<rparr>)))"

definition poll_rejected :: "(int cbarg \<Rightarrow> stream eff) \<Rightarrow> error \<Rightarrow> stream eff" where
  "poll_rejected callback err s = callback (Err err) s"

subsection \<open>streamBlock, streamTransactions, streamOperations\<close>

text \<open>The callback that each layer hands to the layer below it.\<close>

definition streamBlock_cb :: "(jsval cbarg \<Rightarrow> stream eff) \<Rightarrow> int cbarg \<Rightarrow> stream eff" where
  "streamBlock_cb callback a s =
     (case a of
        Err err \<Rightarrow> callback (Err err) (release s)
      | Ok n \<Rightarrow>
          (let s1 = s\<lparr>sb_current := Number n\<rparr>
           in if sb_current s1 \<noteq> sb_last s1
              then (None, act (GetBlock n)
                     (s1\<lparr>sb_last := sb_current s1, fetching := fetching s1 @ [n]\<rparr>))
              else (None, s1)))"

definition streamTransactions_cb ::
  "(jsval cbarg \<Rightarrow> stream eff) \<Rightarrow> jsval cbarg \<Rightarrow> stream eff" where
  "streamTransactions_cb callback a s =
     (case a of
        Err err \<Rightarrow> callback (Err err) (release s)
      | Ok result \<Rightarrow>
          (if truthy result then
             (case get_prop result ''transactions'' of
                Inl e \<Rightarrow> (Some e, s)
              | Inr txs \<Rightarrow>
                  if truthy txs
                  then js_forEach txs (\<lambda>transaction. callback (Ok transaction)) s
                  else (None, s))
           else (None, s)))"

definition streamOperations_cb ::
  "(jsval cbarg \<Rightarrow> stream eff) \<Rightarrow> jsval cbarg \<Rightarrow> stream eff" where
  "streamOperations_cb callback a s =
     (case a of
        Err err \<Rightarrow> callback (Err err) (release s)
      | Ok transaction \<Rightarrow>
          (case get_prop transaction ''operations'' of
             Inl e \<Rightarrow> (Some e, s)
           | Inr ops \<Rightarrow> js_forEach ops (\<lambda>operation. callback (Ok operation)) s))"

subsection \<open>The four entry points and their events\<close>

datatype kind = BlockNumber | Block | Transactions | Operations

text \<open>What \<^verbatim>\<open>streamBlock\<close> was given as its callback, for each entry point.\<close>

fun block_callback :: "kind \<Rightarrow> jsval cbarg \<Rightarrow> stream eff" where
  "block_callback Operations = streamTransactions_cb (streamOperations_cb user_callback)"
| "block_callback Transactions = streamTransactions_cb user_callback"
| "block_callback k = user_callback"

text \<open>What \<^verbatim>\<open>streamBlockNumber\<close> was given as its callback.\<close>

fun number_callback :: "kind \<Rightarrow> int cbarg \<Rightarrow> stream eff" where
  "number_callback BlockNumber = (\<lambda>a. user_callback (map_cbarg JNum a))"
| "number_callback k = streamBlock_cb (block_callback k)"

text \<open>
  Every entry point ends in \<^verbatim>\<open>streamBlockNumber\<close>, which sets its variables and
  calls \<^verbatim>\<open>update()\<close> once. In what follows \<open>mode\<close> and \<open>ts\<close> are the
  arguments after the defaults (\<^verbatim>\<open>'head'\<close>, 200) and the shift of a callback given
  first have been applied.
\<close>

definition stream_start :: stream where
  "stream_start =
     update \<lparr>current = Unset, running = True, sb_current = Unset, sb_last = Unset,
             polls = 0, timers = 0, fetching = [], trace = []\<rparr>"

datatype event =
    PollResolved props            \<comment> \<open>a poll in flight is answered\<close>
  | PollRejected error            \<comment> \<open>a poll in flight fails\<close>
  | TimerFired                    \<comment> \<open>a delay elapses: \<^verbatim>\<open>update()\<close>\<close>
  | BlockReply int "jsval cbarg"  \<comment> \<open>a block fetch in flight calls back\<close>
  | Cancel                        \<comment> \<open>the caller invokes the returned function\<close>

text \<open>An exception that leaves a handler is recorded; the event loop goes on.\<close>

definition caught :: "error option \<times> stream \<Rightarrow> stream" where
  "caught r = (case r of (None, s) \<Rightarrow> s | (Some e, s) \<Rightarrow> act (Uncaught e) s)"

fun step :: "kind \<Rightarrow> string \<Rightarrow> nat \<Rightarrow> event \<Rightarrow> stream \<Rightarrow> stream" where
  "step k mode ts (PollResolved result) s =
     (if polls s = 0 then s
      else caught (poll_resolved mode ts (number_callback k) result (s\<lparr>polls := polls s - 1\<rparr>)))"
| "step k mode ts (PollRejected err) s =
     (if polls s = 0 then s
      else caught (poll_rejected (number_callback k) err (s\<lparr>polls := polls s - 1\<rparr>)))"
| "step k mode ts TimerFired s =
     (if timers s = 0 then s
      else update (s\<lparr>timers := timers s - 1\<rparr>))"
| "step k mode ts (BlockReply n a) s =
     (if n \<notin> set (fetching s) then s
      else caught (block_callback k a (s\<lparr>fetching := remove1 n (fetching s)\<rparr>)))"
| "step k mode ts Cancel s = release s"

definition run :: "kind \<Rightarrow> string \<Rightarrow> nat \<Rightarrow> event list \<Rightarrow> stream \<Rightarrow> stream" where
  "run k mode ts evs s = foldl (\<lambda>s e. step k mode ts e s) s evs"

text \<open>What the trace shows.\<close>

fun callbacks_of :: "action list \<Rightarrow> jsval cbarg list" where
  "callbacks_of [] = []"
| "callbacks_of (Callback a # as) = a # callbacks_of as"
| "callbacks_of (x # as) = callbacks_of as"

fun fetches_of :: "action list \<Rightarrow> int list" where
  "fetches_of [] = []"
| "fetches_of (GetBlock n # as) = n # fetches_of as"
| "fetches_of (x # as) = fetches_of as"

fun polls_of :: "action list \<Rightarrow> nat" where
  "polls_of [] = 0"
| "polls_of (GetProps # as) = Suc (polls_of as)"
| "polls_of (x # as) = polls_of as"

text \<open>The poll sequence of head block numbers, each poll followed by its delay.\<close>

definition head :: "int \<Rightarrow> event" where
  "head n = PollResolved \<lparr>head_block_number = n, last_irreversible_block_num = 0\<rparr>"

fun polled :: "int list \<Rightarrow> event list" where
  "polled [] = []"
| "polled (n # ns) = head n # TimerFired # polled ns"


section \<open>The client: connection, dispatcher, multiplexer\<close>

subsection \<open>State\<close>

text \<open>
  \<^verbatim>\<open>data\<close>, the second argument of \<^verbatim>\<open>send\<close>: \<^verbatim>\<open>{method, params, id?}\<close>. Ids
  are integers; \<open>None\<close> is a \<^verbatim>\<open>data\<close> without \<^verbatim>\<open>id\<close>.
\<close>

record data =
  d_method :: string
  d_params :: jsval
  d_id :: "int option"

text \<open>
  An entry of \<^verbatim>\<open>this.requests\<close>; \<^verbatim>\<open>resolve\<close> and \<^verbatim>\<open>reject\<close> are the two
  functions of one promise, named by its handle.
\<close>

record request =
  api :: string
  data :: data
  promise :: nat
  start_time :: nat

text \<open>An entry of \<^verbatim>\<open>this.callbacks\<close>.\<close>

record subscription =
  sub_api :: string
  sub_data :: data
  cb :: jsval

datatype pstate = Pending | Fulfilled jsval | Rejected error

text \<open>A promise, with the function \<^verbatim>\<open>nodeify\<close> attached to it (if any).\<close>

record promise_cell =
  state :: pstate
  nodeback :: jsval

datatype evname = EvOpen | EvClose | EvMessage

text \<open>
  A listener registered by \<^verbatim>\<open>start\<close>: the transport it listens to, the event,
  and the connect promise its closure holds.
\<close>

type_synonym listener = "nat \<times> evname \<times> nat"

text \<open>What \<^verbatim>\<open>JSON.stringify\<close> writes to the transport.\<close>

record envelope =
  env_id :: int
  env_method :: string
  env_jsonrpc :: string
  env_params :: "jsval list"

text \<open>
  The function that \<^verbatim>\<open>send\<close> hands to \<^verbatim>\<open>startP.then\<close>, with the variables it
  closes over; \<open>t_promise\<close> is the promise that \<^verbatim>\<open>send\<close> returned.
\<close>

record then_entry =
  t_promise :: nat
  t_startP :: nat
  t_id :: int
  t_api :: string
  t_data :: data
  t_callback :: jsval

text \<open>
  The fields of a \<^verbatim>\<open>Golos\<close> object, followed by what surrounds it: the promises
  it made, the transports it created (a transport is named by its number), the
  listeners those hold, the payloads written, the \<^verbatim>\<open>then\<close> functions not yet
  run, the calls made to callers' functions, and the exceptions that left a
  listener.
\<close>

record golos =
  id_counter :: int                       \<comment> \<open>\<^verbatim>\<open>this.id\<close>\<close>
  inFlight :: nat
  currentP :: nat
  isOpen :: bool
  releases :: "listener list"
  requests :: "int \<rightharpoonup> request"
  callbacks :: "int \<rightharpoonup> subscription"
  startP :: "nat option"
  ws :: "nat option"
  promises :: "promise_cell list"
  sockets :: nat
  closed :: "nat list"
  listening :: "listener list"
  wire :: "(nat \<times> envelope) list"
  thens :: "then_entry list"
  invoked :: "(nat \<times> jsval cbarg) list"
  uncaught :: "error list"

definition cbMethods :: "string list" where
  "cbMethods =
     [''set_block_applied_callback'', ''set_pending_transaction_callback'', ''set_callback'']"

text \<open>The constructor; promise 0 is \<^verbatim>\<open>Promise.fulfilled()\<close>.\<close>

definition new_Golos :: golos where
  "new_Golos =
     \<lparr>id_counter = 0, inFlight = 0, currentP = 0, isOpen = False, releases = [],
      requests = Map.empty, callbacks = Map.empty, startP = None, ws = None,
      promises = [\<lparr>state = Fulfilled JUndefined, nodeback = JUndefined\<rparr>],
      sockets = 0, closed = [], listening = [], wire = [], thens = [], invoked = [],
      uncaught = []\<rparr>"

subsection \<open>Promises\<close>

definition new_promise :: "jsval \<Rightarrow> golos \<Rightarrow> nat \<times> golos" where
  "new_promise nb g =
     (length (promises g),
      g\<lparr>promises := promises g @ [\<lparr>state = Pending, nodeback = nb\<rparr>]\<rparr>)"

definition call_fun :: "jsval \<Rightarrow> jsval cbarg \<Rightarrow> golos eff" where
  "call_fun f a g =
     (case f of
        JFun c \<Rightarrow> (None, g\<lparr>invoked := invoked g @ [(c, a)]\<rparr>)
      | _ \<Rightarrow> (Some TypeError, g))"

text \<open>
  \<^verbatim>\<open>resolve\<close> and \<^verbatim>\<open>reject\<close>: a promise settles once; \<^verbatim>\<open>nodeify\<close> then
  calls its function, when it is one.
\<close>

definition settle :: "nat \<Rightarrow> pstate \<Rightarrow> golos \<Rightarrow> golos" where
  "settle k st g =
     (if k < length (promises g) \<and> state (promises g ! k) = Pending then
        (let nb = nodeback (promises g ! k);
             g1 = g\<lparr>promises := (promises g)[k := (promises g ! k)\<lparr>state := st\<rparr>]\<rparr>
         in case (nb, st) of
              (JFun c, Fulfilled v) \<Rightarrow> g1\<lparr>invoked := invoked g1 @ [(c, Ok v)]\<rparr>
            | (JFun c, Rejected e) \<Rightarrow> g1\<lparr>invoked := invoked g1 @ [(c, Err e)]\<rparr>
            | _ \<Rightarrow> g1)
      else g)"

subsection \<open>Connection manager\<close>

text \<open>
  \<^verbatim>\<open>start\<close>. Inside the executor the guard \<^verbatim>\<open>startP !== this.startP\<close> compares
  two undefined values (the variable is assigned after the executor ran, the field
  is unset on this path), so the executor always goes on. The URL of the
  transport comes from the configuration module and plays no part.
\<close>

definition start :: "golos \<Rightarrow> nat \<times> golos" where
  "start g =
     (case startP g of
        Some p \<Rightarrow> (p, g)
      | None \<Rightarrow>
          (let (p, g1) = new_promise JUndefined g;
               w = sockets g1;
               ls = [(w, EvOpen, p), (w, EvClose, p), (w, EvMessage, p)]
           in (p, g1\<lparr>ws := Some w, sockets := Suc w,
                     listening := listening g1 @ ls,
                     releases := releases g1 @ ls,
                     startP := Some p\<rparr>)))"

definition stop :: "golos \<Rightarrow> golos" where
  "stop g =
     (let g1 = (case ws g of Some w \<Rightarrow> g\<lparr>closed := closed g @ [w]\<rparr> | None \<Rightarrow> g)
      in g1\<lparr>startP := None, ws := None,
            listening := filter (\<lambda>l. l \<notin> set (releases g1)) (listening g1),
            releases := []\<rparr>)"

text \<open>The \<^verbatim>\<open>open\<close> and \<^verbatim>\<open>close\<close> listeners of transport \<open>w\<close>.\<close>

definition on_open :: "nat \<Rightarrow> nat \<Rightarrow> golos \<Rightarrow> golos" where
  "on_open w p g =
     settle p (Fulfilled JUndefined)
       (g\<lparr>isOpen := True, listening := removeAll (w, EvOpen, p) (listening g)\<rparr>)"

definition on_close :: "nat \<Rightarrow> nat \<Rightarrow> golos \<Rightarrow> golos" where
  "on_close w p g =
     settle p (Rejected ClosedBeforeOperation) (stop (g\<lparr>isOpen := False, ws := None\<rparr>))"

subsection \<open>Message dispatcher\<close>

definition onMessage :: "frame \<Rightarrow> request + subscription \<Rightarrow> golos eff" where
  "onMessage message req g =
     (let errorCause = msg_error message
      in if truthy errorCause then
           (case get_prop errorCause ''message'' of
              Inl e \<Rightarrow> (Some e, g)
            | Inr m \<Rightarrow>
                (let err = Failed (if truthy m then m else JStr ''Failed to complete operation'')
                                  message
                 in case req of
                      Inl r \<Rightarrow> (None, settle (promise r) (Rejected err) g)
                    | Inr sub \<Rightarrow> (Some TypeError, g)))
         else if d_method (case req of Inl r \<Rightarrow> data r | Inr sub \<Rightarrow> sub_data sub)
                   \<in> set cbMethods then
           (case callbacks g (msg_id message) of
              None \<Rightarrow> (Some TypeError, g)
            | Some sub \<Rightarrow> call_fun (cb sub) (Ok (msg_result message)) g)
         else
           (let g1 = g\<lparr>requests := (requests g)(msg_id message := None)\<rparr>
            in case req of
                 Inl r \<Rightarrow> (None, settle (promise r) (Fulfilled (msg_result message)) g1)
               | Inr sub \<Rightarrow> (Some TypeError, g1)))"

text \<open>The \<^verbatim>\<open>message\<close> listener, from the parsed frame on.\<close>

definition on_message :: "frame \<Rightarrow> golos eff" where
  "on_message message g =
     (let i = msg_id message
      in case (case requests g i of
                 Some r \<Rightarrow> Some (Inl r)
               | None \<Rightarrow> map_option Inr (callbacks g i)) of
           None \<Rightarrow> (None, g)
         | Some req \<Rightarrow> onMessage message req (g\<lparr>requests := (requests g)(i := None)\<rparr>))"

subsection \<open>Request multiplexer\<close>

text \<open>\<^verbatim>\<open>const id = data.id || this.id++;\<close>\<close>

definition resolve_id :: "data \<Rightarrow> golos \<Rightarrow> int \<times> golos" where
  "resolve_id d g =
     (case d_id d of
        Some n \<Rightarrow>
          if n \<noteq> 0 then (n, g)
          else (id_counter g, g\<lparr>id_counter := id_counter g + 1\<rparr>)
      | None \<Rightarrow> (id_counter g, g\<lparr>id_counter := id_counter g + 1\<rparr>))"

text \<open>
  \<^verbatim>\<open>send\<close>, up to its \<^verbatim>\<open>return\<close>: the id, \<^verbatim>\<open>start()\<close>, and the promise
  \<^verbatim>\<open>startP.then(...).nodeify(callback)\<close>, whose function waits in \<open>thens\<close>.
\<close>

definition send :: "string \<Rightarrow> data \<Rightarrow> jsval \<Rightarrow> golos \<Rightarrow> nat \<times> golos" where
  "send a d callback g =
     (let (i, g1) = resolve_id d g;
          (p, g2) = start g1;
          (k, g3) = new_promise callback g2
      in (k, g3\<lparr>thens := thens g3 @
                   [\<lparr>t_promise = k, t_startP = p, t_id = i, t_api = a, t_data = d,
                     t_callback = callback\<rparr>],
                 currentP := k\<rparr>))"

text \<open>
  The function given to \<^verbatim>\<open>then\<close>, run once the connect promise is fulfilled;
  \<open>now\<close> is \<^verbatim>\<open>Date.now()\<close>. The transport is taken to accept what
  \<^verbatim>\<open>this.ws.send\<close> hands it.
\<close>

definition dispatch :: "then_entry \<Rightarrow> nat \<Rightarrow> golos \<Rightarrow> golos" where
  "dispatch t now g =
     (case ws g of
        None \<Rightarrow> settle (t_promise t) (Rejected ClosedWhilePending) g
      | Some w \<Rightarrow>
          (let payload = \<lparr>env_id = t_id t, env_method = ''call'', env_jsonrpc = ''2.0'',
                          env_params = [JStr (t_api t), JStr (d_method (t_data t)),
                                        d_params (t_data t)]\<rparr>;
               g1 = (if d_method (t_data t) \<in> set cbMethods
                     then g\<lparr>callbacks := (callbacks g)(t_id t \<mapsto>
                            \<lparr>sub_api = t_api t, sub_data = t_data t, cb = t_callback t\<rparr>)\<rparr>
                     else g\<lparr>requests := (requests g)(t_id t \<mapsto>
                            \<lparr>api = t_api t, data = t_data t, promise = t_promise t,
                             start_time = now\<rparr>)\<rparr>)
           in g1\<lparr>wire := wire g1 @ [(w, payload)]\<rparr>))"

text \<open>
  The promise machinery runs the function of call \<open>k\<close>: not before the connect
  promise settled; when that one was rejected, the call's promise is rejected
  with the same error.
\<close>

definition run_then :: "nat \<Rightarrow> nat \<Rightarrow> golos \<Rightarrow> golos" where
  "run_then k now g =
     (case find (\<lambda>t. t_promise t = k) (thens g) of
        None \<Rightarrow> g
      | Some t \<Rightarrow>
          (if t_startP t < length (promises g) then
             (case state (promises g ! t_startP t) of
                Pending \<Rightarrow> g
              | Fulfilled v \<Rightarrow> dispatch t now (g\<lparr>thens := remove1 t (thens g)\<rparr>)
              | Rejected e \<Rightarrow> settle k (Rejected e) (g\<lparr>thens := remove1 t (thens g)\<rparr>))
           else g))"

subsection \<open>Events of a client\<close>

datatype cevent =
    CallStart
  | CallStop
  | CallSend string data jsval
  | RunThen nat nat               \<comment> \<open>the call, and \<^verbatim>\<open>Date.now()\<close>\<close>
  | WsOpen nat
  | WsClose nat
  | WsMessage nat frame

definition thrown :: "error option \<times> golos \<Rightarrow> golos" where
  "thrown r = (case r of (None, g) \<Rightarrow> g | (Some e, g) \<Rightarrow> g\<lparr>uncaught := uncaught g @ [e]\<rparr>)"

text \<open>A transport's event reaches the listener that is still registered for it.\<close>

definition heard :: "nat \<Rightarrow> evname \<Rightarrow> golos \<Rightarrow> nat option" where
  "heard w ev g =
     map_option (\<lambda>l. snd (snd l)) (find (\<lambda>l. fst l = w \<and> fst (snd l) = ev) (listening g))"

fun cstep :: "cevent \<Rightarrow> golos \<Rightarrow> golos" where
  "cstep CallStart g = snd (start g)"
| "cstep CallStop g = stop g"
| "cstep (CallSend a d callback) g = snd (send a d callback g)"
| "cstep (RunThen k now) g = run_then k now g"
| "cstep (WsOpen w) g = (case heard w EvOpen g of None \<Rightarrow> g | Some p \<Rightarrow> on_open w p g)"
| "cstep (WsClose w) g = (case heard w EvClose g of None \<Rightarrow> g | Some p \<Rightarrow> on_close w p g)"
| "cstep (WsMessage w message) g =
     (case heard w EvMessage g of None \<Rightarrow> g | Some p \<Rightarrow> thrown (on_message message g))"

definition crun :: "cevent list \<Rightarrow> golos \<Rightarrow> golos" where
  "crun evs g = foldl (\<lambda>g e. cstep e g) g evs"

text \<open>
  The ids of the calls of \<^verbatim>\<open>send\<close> in a run, in call order: for each call the
  \<^verbatim>\<open>id\<close> that its function holds and will write into the envelope.
\<close>

fun assigned_ids :: "cevent list \<Rightarrow> golos \<Rightarrow> int list" where
  "assigned_ids [] g = []"
| "assigned_ids (CallSend a d callback # evs) g =
     t_id (last (thens (cstep (CallSend a d callback) g)))
       # assigned_ids evs (cstep (CallSend a d callback) g)"
| "assigned_ids (e # evs) g = assigned_ids evs (cstep e g)"


section \<open>The method binding layer\<close>

text \<open>
  An entry of the registry \<^verbatim>\<open>methods\<close>. The registry itself is data from
  another module; the functions generated from an entry take it as a parameter,
  and so they do \<^verbatim>\<open>JSON.parse\<close>.
\<close>

record method_entry =
  m_api :: string
  m_method :: string
  m_params :: "string list"
  has_default_values :: bool

text \<open>\<^verbatim>\<open>param.split('=')\<close> and the two variables it is destructured into.\<close>

fun split_eq :: "string \<Rightarrow> string list" where
  "split_eq [] = [[]]"
| "split_eq (c # cs) =
     (if c = CHR ''='' then [] # split_eq cs
      else (case split_eq cs of
              x # xs \<Rightarrow> (c # x) # xs
            | [] \<Rightarrow> [[c]]))"

definition param_name :: "string \<Rightarrow> string" where
  "param_name param = (case split_eq param of p # rest \<Rightarrow> p | [] \<Rightarrow> [])"

definition param_value :: "string \<Rightarrow> string option" where
  "param_value param = (case split_eq param of p # v # rest \<Rightarrow> Some v | _ \<Rightarrow> None)"

text \<open>
  \<^verbatim>\<open>defaultParms\<close> as it is when the module has loaded: one object for each
  entry, shared by all calls of the entry's method.
\<close>

definition defaultParms ::
  "(string \<Rightarrow> jsval) \<Rightarrow> method_entry \<Rightarrow> (string \<rightharpoonup> jsval)" where
  "defaultParms parse m =
     (if has_default_values m then
        foldl (\<lambda>dp param.
                 dp(param_name param \<mapsto>
                      (case param_value param of
                         Some v \<Rightarrow> if v \<noteq> [] then parse v else JStr []
                       | None \<Rightarrow> JStr [])))
              Map.empty (m_params m)
      else Map.empty)"

definition specializedSendWith ::
  "method_entry \<Rightarrow> (string \<rightharpoonup> jsval) \<Rightarrow> jsval \<Rightarrow> golos \<Rightarrow> nat \<times> golos" where
  "specializedSendWith m options callback g =
     send (m_api m)
       \<lparr>d_method = m_method m,
        d_params = JArr (map (\<lambda>param. case options (param_name param) of
                                         None \<Rightarrow> JUndefined
                                       | Some v \<Rightarrow> v)
                             (m_params m)),
        d_id = None\<rparr>
       callback g"

text \<open>The \<^verbatim>\<open>forEach\<close> of \<^verbatim>\<open>specializedSend\<close> that fills \<^verbatim>\<open>options\<close>.\<close>

definition bind_args :: "method_entry \<Rightarrow> jsval list \<Rightarrow> (string \<rightharpoonup> jsval)" where
  "bind_args m argsWithoutCb =
     foldl (\<lambda>options (param, i).
              if i < length argsWithoutCb \<and> truthy (argsWithoutCb ! i)
              then options(param_name param \<mapsto> argsWithoutCb ! i)
              else options)
           Map.empty (zip (m_params m) [0 ..< length (m_params m)])"

text \<open>
  \<^verbatim>\<open>specializedSend(...args)\<close>: the state is the entry's \<^verbatim>\<open>defaultParms\<close> and
  the client. \<^verbatim>\<open>Object.assign(defaultParms, options)\<close> writes into its first
  argument and returns it.
\<close>

definition specializedSend ::
  "method_entry \<Rightarrow> jsval list \<Rightarrow> (string \<rightharpoonup> jsval) \<times> golos
     \<Rightarrow> nat \<times> (string \<rightharpoonup> jsval) \<times> golos" where
  "specializedSend m args st =
     (let (dp, g) = st;
          argsWithoutCb = take (length args - 1) args;
          options = bind_args m argsWithoutCb;
          dp' = dp ++ options;
          callback = (if args = [] then JUndefined else last args);
          (k, g') = specializedSendWith m dp' callback g
      in (k, dp', g'))"

text \<open>The \<^verbatim>\<open>params\<close> that the latest call of \<^verbatim>\<open>send\<close> was given.\<close>

definition last_params :: "golos \<Rightarrow> jsval" where
  "last_params g = (if thens g = [] then JUndefined else d_params (t_data (last (thens g))))"


section \<open>Notions used in the statements and proofs\<close>

text \<open>The events that leave the connection as it is: all but \<^verbatim>\<open>stop()\<close> and a close.\<close>

fun keeps_connection :: "cevent \<Rightarrow> bool" where
  "keeps_connection CallStop = False"
| "keeps_connection (WsClose w) = False"
| "keeps_connection e = True"

fun no_explicit_id :: "cevent \<Rightarrow> bool" where
  "no_explicit_id (CallSend a d callback) = (d_id d = None)"
| "no_explicit_id e = True"

fun is_send :: "cevent \<Rightarrow> bool" where
  "is_send (CallSend a d callback) = True"
| "is_send e = False"

text \<open>
  A callback of the pipeline that starts no poll and does the same whether or not
  the stream was released.
\<close>

definition inert :: "('a \<Rightarrow> stream eff) \<Rightarrow> bool" where
  "inert f \<longleftrightarrow>
     (\<forall>a s. polls_of (trace (snd (f a s))) = polls_of (trace s)
          \<and> f a (release s) = (fst (f a s), release (snd (f a s))))"

text \<open>The block numbers among the arguments a callback was given.\<close>

fun nums_of :: "jsval cbarg list \<Rightarrow> int list" where
  "nums_of [] = []"
| "nums_of (Ok (JNum n) # as) = n # nums_of as"
| "nums_of (a # as) = nums_of as"

definition emitted :: "stream \<Rightarrow> int list" where
  "emitted s = nums_of (callbacks_of (trace s))"

definition fetched :: "stream \<Rightarrow> int list" where
  "fetched s = fetches_of (trace s)"

text \<open>
  How a run of \<^verbatim>\<open>streamBlock\<close> (\<open>s2\<close>) relates to the run of
  \<^verbatim>\<open>streamBlockNumber\<close> (\<open>s1\<close>) on the same events.
\<close>

definition follows :: "stream \<Rightarrow> stream \<Rightarrow> bool" where
  "follows s1 s2 \<longleftrightarrow>
     current s2 = current s1 \<and> polls s2 = polls s1 \<and> timers s2 = timers s1
     \<and> fetching s1 = []
     \<and> fetched s2 = remdups_adj (emitted s1)
     \<and> sb_last s2 = (if emitted s1 = [] then Unset else Number (last (emitted s1)))"

definition in_step :: "stream \<Rightarrow> stream \<Rightarrow> bool" where
  "in_step s1 s2 \<longleftrightarrow>
     follows s1 s2 \<and> polls s1 + timers s1 \<le> 1
     \<and> (running s2 = running s1 \<or> polls s1 + timers s1 = 0)"

definition kept :: "stream \<Rightarrow> stream \<Rightarrow> bool" where
  "kept s s' \<longleftrightarrow> running s' = running s \<and> polls s' = polls s \<and> timers s' = timers s"

text \<open>
  What holds of the promises in every state a client can reach: the promise of a
  call that waits for the connection or for its reply is pending, no two such
  calls share a promise, and none shares one with a connection attempt.
\<close>

definition pend :: "promise_cell list \<Rightarrow> nat \<Rightarrow> bool" where
  "pend ps k \<longleftrightarrow> k < length ps \<and> state (ps ! k) = Pending"

definition parts ::
  "then_entry list \<Rightarrow> (int \<rightharpoonup> request) \<Rightarrow> promise_cell list \<Rightarrow> listener list
     \<Rightarrow> nat option \<Rightarrow> bool" where
  "parts th rq ps ls sp \<longleftrightarrow>
     (\<forall>t\<in>set th. pend ps (t_promise t) \<and> t_startP t < length ps)
   \<and> (\<forall>i r. rq i = Some r \<longrightarrow> pend ps (promise r))
   \<and> distinct (map t_promise th)
   \<and> (\<forall>i r. rq i = Some r \<longrightarrow> (\<forall>t\<in>set th. t_promise t \<noteq> promise r))
   \<and> (\<forall>i j r r'. rq i = Some r \<longrightarrow> rq j = Some r' \<longrightarrow> promise r = promise r' \<longrightarrow> i = j)
   \<and> (\<forall>l\<in>set ls. snd (snd l) < length ps
         \<and> (\<forall>t\<in>set th. t_promise t \<noteq> snd (snd l))
         \<and> (\<forall>i r. rq i = Some r \<longrightarrow> promise r \<noteq> snd (snd l)))
   \<and> (\<forall>p. sp = Some p \<longrightarrow> p < length ps)"

definition sound :: "golos \<Rightarrow> bool" where
  "sound g \<longleftrightarrow> parts (thens g) (requests g) (promises g) (listening g) (startP g)"

subsection \<open>Inputs of the examples\<close>

definition d_auto :: data where
  "d_auto = \<lparr>d_method = ''get_config'', d_params = JArr [], d_id = None\<rparr>"

definition d_zero :: data where
  "d_zero = \<lparr>d_method = ''get_config'', d_params = JArr [], d_id = Some 0\<rparr>"

definition d_seven :: data where
  "d_seven = \<lparr>d_method = ''get_block'', d_params = JArr [JNum 1], d_id = Some 7\<rparr>"

definition d_sub :: data where
  "d_sub = \<lparr>d_method = ''set_block_applied_callback'', d_params = JArr [JNum 0], d_id = None\<rparr>"

text \<open>
  A client with three calls sent on an open connection: call 0, call 7 and the
  subscription 1.
\<close>

definition g_7 :: golos where
  "g_7 = crun [CallSend ''database_api'' d_auto JUndefined,
               CallSend ''database_api'' d_seven (JFun 1),
               CallSend ''database_api'' d_sub (JFun 2),
               WsOpen 0, RunThen 2 10, RunThen 3 11, RunThen 4 12] new_Golos"

definition r_7 :: request where
  "r_7 = \<lparr>api = ''database_api'', data = d_seven, promise = 3, start_time = 11\<rparr>"

definition frame_7 :: frame where
  "frame_7 = \<lparr>msg_id = 7, msg_result = JUndefined,
              msg_error = JObj [(''message'', JStr ''x'')], msg_other = []\<rparr>"

text \<open>A client whose call was sent, then \<^verbatim>\<open>stop()\<close>, before the call's function ran.\<close>

definition g_stopped :: golos where
  "g_stopped = crun [CallSend ''database_api'' d_auto (JFun 1), WsOpen 0, CallStop] new_Golos"

definition t_stopped :: then_entry where
  "t_stopped = \<lparr>t_promise = 2, t_startP = 1, t_id = 0, t_api = ''database_api'',
                t_data = d_auto, t_callback = JFun 1\<rparr>"

definition m_followers :: method_entry where
  "m_followers = \<lparr>m_api = ''follow'', m_method = ''get_followers'',
                  m_params = [''following'', ''limit=5''], has_default_values = True\<rparr>"

definition block_5 :: jsval where
  "block_5 = JObj [(''transactions'',
               JArr [JObj [(''operations'', JArr [JStr ''vote'', JStr ''comment''])]])]"


section \<open>Properties\<close>

lemmas stream_defs = run_def stream_start_def update_def act_def head_def poll_resolved_def
  observe_def poll_rejected_def user_callback_def caught_def release_def streamBlock_cb_def
  streamTransactions_cb_def streamOperations_cb_def

lemmas client_defs = crun_def new_Golos_def send_def start_def stop_def new_promise_def
  resolve_id_def run_then_def dispatch_def settle_def on_open_def on_close_def on_message_def
  onMessage_def heard_def thrown_def call_fun_def cbMethods_def

subsection \<open>streamBlockNumber on the polls 5, 5, 8\<close>

text \<open>
  Claim C1. With head block numbers 5, 5, 8 polled in that order,
  \<^verbatim>\<open>streamBlockNumber('head', cb)\<close> would call \<^verbatim>\<open>cb\<close> with 5, 6, 7, 8. The loop
  \<^verbatim>\<open>for (let i = current; i < blockId; i++)\<close> stops one short of the number
  observed: the callback gets 5, then 6 and 7, and not 8.
\<close>

theorem streamBlockNumber_5_5_8:
  "callbacks_of (trace (run BlockNumber ''head'' 200 (polled [5, 5, 8]) stream_start)) =
     [Ok (JNum 5), Ok (JNum 6), Ok (JNum 7)]"
  by (simp add: stream_defs for_loop.simps)

text \<open>
  In general: the first observation is emitted as it is and an equal one is not
  emitted; a greater one emits the numbers strictly between the cursor and the
  number observed, and leaves the cursor one below it.
\<close>

lemma observe_first:
  "current s = Unset \<Longrightarrow>
   observe (number_callback BlockNumber) blockId s =
     (None, s\<lparr>current := Number blockId, trace := trace s @ [Callback (Ok (JNum blockId))]\<rparr>)"
  by (simp add: observe_def user_callback_def act_def)

lemma observe_same:
  "current s = Number blockId \<Longrightarrow> observe callback blockId s = (None, s)"
  by (simp add: observe_def)

lemma for_loop_tail:
  assumes "current s = Number (i - 1)" and "i \<le> blockId"
  shows "for_loop (number_callback BlockNumber) i blockId s =
           (None, s\<lparr>current := Number (blockId - 1),
                    trace := trace s @ map (\<lambda>j. Callback (Ok (JNum j))) [i .. blockId - 1]\<rparr>)"
  using assms
proof (induction "nat (blockId - i)" arbitrary: i s)
  case 0
  then have "i = blockId" by simp
  with 0 show ?case by (simp add: for_loop.simps)
next
  case (Suc n)
  then have lt: "i < blockId" and n: "n = nat (blockId - (i + 1))" by simp_all
  let ?s = "(act (Callback (Ok (JNum i))) s)\<lparr>current := Number i\<rparr>"
  have "for_loop (number_callback BlockNumber) i blockId s =
          for_loop (number_callback BlockNumber) (i + 1) blockId ?s"
    using lt Suc.prems(1) by (subst for_loop.simps) (simp add: user_callback_def)
  also have "\<dots> = (None, ?s\<lparr>current := Number (blockId - 1),
                    trace := trace ?s @ map (\<lambda>j. Callback (Ok (JNum j))) [i + 1 .. blockId - 1]\<rparr>)"
    using lt by (intro Suc.hyps(1) [OF n]) (simp_all add: act_def)
  also have "\<dots> = (None, s\<lparr>current := Number (blockId - 1),
                    trace := trace s @ map (\<lambda>j. Callback (Ok (JNum j))) [i .. blockId - 1]\<rparr>)"
    using lt by (simp add: act_def upto_rec1 [of i "blockId - 1"])
  finally show ?case .
qed

lemma observe_later:
  assumes "current s = Number c" and "c \<noteq> 0" and "c < blockId"
  shows "observe (number_callback BlockNumber) blockId s =
           (None, s\<lparr>current := Number (blockId - 1),
                    trace := trace s @ map (\<lambda>j. Callback (Ok (JNum j))) [c + 1 .. blockId - 1]\<rparr>)"
proof -
  have "for_loop (number_callback BlockNumber) c blockId s =
          for_loop (number_callback BlockNumber) (c + 1) blockId (s\<lparr>current := Number c\<rparr>)"
    using assms by (subst for_loop.simps) simp
  also have "\<dots> = (None, s\<lparr>current := Number (blockId - 1),
                    trace := trace s @ map (\<lambda>j. Callback (Ok (JNum j))) [c + 1 .. blockId - 1]\<rparr>)"
    using assms for_loop_tail [of "s\<lparr>current := Number c\<rparr>" "c + 1" blockId] by simp
  finally show ?thesis
    using assms by (simp add: observe_def)
qed

subsection \<open>Settling a promise\<close>

lemma settle_pending:
  assumes "k < length (promises g)" and "state (promises g ! k) = Pending"
  shows "promises (settle k st g) = (promises g)[k := (promises g ! k)\<lparr>state := st\<rparr>]"
    and "requests (settle k st g) = requests g"
    and "callbacks (settle k st g) = callbacks g"
    and "wire (settle k st g) = wire g"
  using assms by (simp_all add: settle_def Let_def split: jsval.splits pstate.splits)

subsection \<open>Promises of reachable states\<close>

lemma in_remove1D: "y \<in> set (remove1 x xs) \<Longrightarrow> y \<in> set xs"
  using set_remove1_subset [of x xs] by blast

lemma distinct_map_remove1:
  "distinct (map f xs) \<Longrightarrow> distinct (map f (remove1 x xs))"
proof (induction xs)
  case Nil
  then show ?case by simp
next
  case (Cons a xs)
  then have "f a \<notin> f ` set (remove1 x xs)"
    by (auto dest: in_remove1D)
  with Cons show ?case by simp
qed

lemma removed_fresh:
  "distinct (map f xs) \<Longrightarrow> x \<in> set xs \<Longrightarrow> y \<in> set (remove1 x xs) \<Longrightarrow> f y \<noteq> f x"
proof (induction xs)
  case Nil
  then show ?case by simp
next
  case (Cons a xs)
  show ?case
  proof (cases "x = a")
    case True
    from Cons.prems(3) True have "y \<in> set xs" by simp
    then have "f y \<in> f ` set xs" by (rule imageI)
    moreover from Cons.prems(1) have "f a \<notin> f ` set xs" by simp
    ultimately show ?thesis using True by metis
  next
    case False
    with Cons.prems have x: "x \<in> set xs" by simp
    from False Cons.prems have "y = a \<or> y \<in> set (remove1 x xs)" by simp
    then show ?thesis
    proof
      assume "y = a"
      moreover from x have "f x \<in> f ` set xs" by (rule imageI)
      moreover from Cons.prems(1) have "f a \<notin> f ` set xs" by simp
      ultimately show ?thesis by metis
    next
      assume "y \<in> set (remove1 x xs)"
      with Cons.IH x Cons.prems show ?thesis by simp
    qed
  qed
qed

lemma parts_forget_then: "parts th rq ps ls sp \<Longrightarrow> parts (remove1 t th) rq ps ls sp"
  unfolding parts_def
  by (intro conjI; (simp add: distinct_map_remove1)?; blast dest: in_remove1D)

lemma parts_forget_request: "parts th rq ps ls sp \<Longrightarrow> parts th (rq(i := None)) ps ls sp"
  unfolding parts_def
  by (intro conjI; simp split: if_splits; blast)

lemma parts_less_listening: "parts th rq ps ls sp \<Longrightarrow> set ls' \<subseteq> set ls \<Longrightarrow> parts th rq ps ls' sp"
  unfolding parts_def by (intro conjI) blast+

lemma parts_startP_None: "parts th rq ps ls sp \<Longrightarrow> parts th rq ps ls None"
  unfolding parts_def by simp

lemma pend_update: "k' \<noteq> k \<Longrightarrow> pend (ps[k := c]) k' = pend ps k'"
  by (simp add: pend_def)

lemma parts_settle:
  assumes "parts th rq ps ls sp"
    and "\<forall>t\<in>set th. t_promise t \<noteq> k"
    and "\<forall>i r. rq i = Some r \<longrightarrow> promise r \<noteq> k"
  shows "parts th rq (ps[k := c]) ls sp"
  using assms unfolding parts_def
  by (simp add: pend_update)

lemma pend_append: "pend ps k \<Longrightarrow> pend (ps @ [c]) k"
  by (simp add: pend_def nth_append)

lemma parts_new_promise: "parts th rq ps ls sp \<Longrightarrow> parts th rq (ps @ [c]) ls sp"
  unfolding parts_def
  by (intro conjI; (simp add: pend_append less_SucI)?; blast?)

lemma parts_bounds:
  assumes "parts th rq ps ls sp"
  shows "t \<in> set th \<Longrightarrow> t_promise t < length ps"
    and "rq i = Some r \<Longrightarrow> promise r < length ps"
    and "l \<in> set ls \<Longrightarrow> snd (snd l) < length ps"
  using assms unfolding parts_def pend_def by blast+


lemma partsI:
  assumes "\<And>t. t \<in> set th \<Longrightarrow> pend ps (t_promise t)"
    and "\<And>t. t \<in> set th \<Longrightarrow> t_startP t < length ps"
    and "\<And>i r. rq i = Some r \<Longrightarrow> pend ps (promise r)"
    and "distinct (map t_promise th)"
    and "\<And>i r t. rq i = Some r \<Longrightarrow> t \<in> set th \<Longrightarrow> t_promise t \<noteq> promise r"
    and "\<And>i j r r'. rq i = Some r \<Longrightarrow> rq j = Some r' \<Longrightarrow> promise r = promise r' \<Longrightarrow> i = j"
    and "\<And>l. l \<in> set ls \<Longrightarrow> snd (snd l) < length ps"
    and "\<And>l t. l \<in> set ls \<Longrightarrow> t \<in> set th \<Longrightarrow> t_promise t \<noteq> snd (snd l)"
    and "\<And>l i r. l \<in> set ls \<Longrightarrow> rq i = Some r \<Longrightarrow> promise r \<noteq> snd (snd l)"
    and "\<And>p. sp = Some p \<Longrightarrow> p < length ps"
  shows "parts th rq ps ls sp"
  unfolding parts_def using assms by blast

lemma partsD:
  assumes "parts th rq ps ls sp"
  shows "t \<in> set th \<Longrightarrow> pend ps (t_promise t)"
    and "t \<in> set th \<Longrightarrow> t_startP t < length ps"
    and "rq i = Some r \<Longrightarrow> pend ps (promise r)"
    and "distinct (map t_promise th)"
    and "rq i = Some r \<Longrightarrow> t \<in> set th \<Longrightarrow> t_promise t \<noteq> promise r"
    and "rq i = Some r \<Longrightarrow> rq j = Some r' \<Longrightarrow> promise r = promise r' \<Longrightarrow> i = j"
    and "l \<in> set ls \<Longrightarrow> snd (snd l) < length ps"
    and "l \<in> set ls \<Longrightarrow> t \<in> set th \<Longrightarrow> t_promise t \<noteq> snd (snd l)"
    and "l \<in> set ls \<Longrightarrow> rq i = Some r \<Longrightarrow> promise r \<noteq> snd (snd l)"
    and "sp = Some p \<Longrightarrow> p < length ps"
  using assms unfolding parts_def by blast+

lemma parts_add_then:
  assumes "parts th rq ps ls sp"
    and "t_promise t = length ps" and "t_startP t < length ps"
  shows "parts (th @ [t]) rq (ps @ [\<lparr>state = Pending, nodeback = nb\<rparr>]) ls sp"
proof (rule partsI)
  let ?ps = "ps @ [\<lparr>state = Pending, nodeback = nb\<rparr>]"
  note b = parts_bounds [OF assms(1)]
  note d = partsD [OF parts_new_promise [OF assms(1), of "\<lparr>state = Pending, nodeback = nb\<rparr>"]]
  have new: "pend ?ps (length ps)"
    by (simp add: pend_def)
  show "pend ?ps (t_promise t')" if "t' \<in> set (th @ [t])" for t'
    using that d(1) [of t'] new assms(2) by auto
  show "t_startP t' < length ?ps" if "t' \<in> set (th @ [t])" for t'
    using that d(2) [of t'] assms(3) by auto
  show "pend ?ps (promise r)" if "rq i = Some r" for i r
    using that by (rule d(3))
  have "t_promise t \<notin> t_promise ` set th"
  proof
    assume "t_promise t \<in> t_promise ` set th"
    then obtain x where "x \<in> set th" and "t_promise x = t_promise t" by auto
    with b(1) [of x] assms(2) show False by simp
  qed
  with d(4) show "distinct (map t_promise (th @ [t]))"
    by simp
  show "t_promise t' \<noteq> promise r" if "rq i = Some r" "t' \<in> set (th @ [t])" for i r t'
    using that d(5) [of i r t'] b(2) [of i r] assms(2) by auto
  show "i = j" if "rq i = Some r" "rq j = Some r'" "promise r = promise r'" for i j r r'
    using that by (rule d(6))
  show "snd (snd l) < length ?ps" if "l \<in> set ls" for l
    using that by (rule d(7))
  show "t_promise t' \<noteq> snd (snd l)" if "l \<in> set ls" "t' \<in> set (th @ [t])" for l t'
    using that d(8) [of l t'] b(3) [of l] assms(2) by auto
  show "promise r \<noteq> snd (snd l)" if "l \<in> set ls" "rq i = Some r" for l i r
    using that by (rule d(9))
  show "p < length ?ps" if "sp = Some p" for p
    using that by (rule d(10))
qed

lemma parts_add_listeners:
  assumes "parts th rq ps ls sp"
  shows "parts th rq (ps @ [c])
           (ls @ [(w, EvOpen, length ps), (w, EvClose, length ps), (w, EvMessage, length ps)])
           (Some (length ps))"
proof (rule partsI)
  let ?ls = "ls @ [(w, EvOpen, length ps), (w, EvClose, length ps), (w, EvMessage, length ps)]"
  note b = parts_bounds [OF assms(1)]
  note d = partsD [OF parts_new_promise [OF assms(1), of c]]
  show "pend (ps @ [c]) (t_promise t)" if "t \<in> set th" for t
    using that by (rule d(1))
  show "t_startP t < length (ps @ [c])" if "t \<in> set th" for t
    using that by (rule d(2))
  show "pend (ps @ [c]) (promise r)" if "rq i = Some r" for i r
    using that by (rule d(3))
  show "distinct (map t_promise th)"
    by (rule d(4))
  show "t_promise t \<noteq> promise r" if "rq i = Some r" "t \<in> set th" for i r t
    using that by (rule d(5))
  show "i = j" if "rq i = Some r" "rq j = Some r'" "promise r = promise r'" for i j r r'
    using that by (rule d(6))
  show "snd (snd l) < length (ps @ [c])" if "l \<in> set ?ls" for l
    using that d(7) [of l] by auto
  show "t_promise t \<noteq> snd (snd l)" if "l \<in> set ?ls" "t \<in> set th" for l t
    using that d(8) [of l t] b(1) [of t] by auto
  show "promise r \<noteq> snd (snd l)" if "l \<in> set ?ls" "rq i = Some r" for l i r
    using that d(9) [of l i r] b(2) [of i r] by auto
  show "p < length (ps @ [c])" if "Some (length ps) = Some p" for p
    using that by auto
qed

lemma parts_add_request:
  assumes "parts th rq ps ls sp" and "t \<in> set th" and "promise r = t_promise t"
  shows "parts (remove1 t th) (rq(i \<mapsto> r)) ps ls sp"
proof (rule partsI)
  note d0 = partsD [OF assms(1)]
  note d = partsD [OF parts_forget_then [OF assms(1), of t]]
  have a: "t_promise t' \<noteq> promise r" if "t' \<in> set (remove1 t th)" for t'
    using removed_fresh [OF d0(4) assms(2) that] assms(3) by simp
  have b: "promise r' \<noteq> promise r" if "rq j = Some r'" for j r'
    using d0(5) [OF that assms(2)] assms(3) by simp
  have c: "promise r \<noteq> snd (snd l)" if "l \<in> set ls" for l
    using d0(8) [OF that assms(2)] assms(3) by simp
  have e: "pend ps (promise r)"
    using d0(1) [OF assms(2)] assms(3) by simp
  show "pend ps (t_promise t')" if "t' \<in> set (remove1 t th)" for t'
    using that by (rule d(1))
  show "t_startP t' < length ps" if "t' \<in> set (remove1 t th)" for t'
    using that by (rule d(2))
  show "pend ps (promise r')" if "(rq(i \<mapsto> r)) j = Some r'" for j r'
    using that e d(3) [of j r'] by (auto split: if_splits)
  show "distinct (map t_promise (remove1 t th))"
    by (rule d(4))
  show "t_promise t' \<noteq> promise r'"
    if "(rq(i \<mapsto> r)) j = Some r'" "t' \<in> set (remove1 t th)" for j r' t'
    using that a [of t'] d(5) [of j r' t'] by (auto split: if_splits)
  show "j = j'"
    if "(rq(i \<mapsto> r)) j = Some r1" "(rq(i \<mapsto> r)) j' = Some r2" "promise r1 = promise r2"
    for j j' r1 r2
    using that b [of j r1] b [of j' r2] d(6) [of j r1 j' r2] by (auto split: if_splits)
  show "snd (snd l) < length ps" if "l \<in> set ls" for l
    using that by (rule d(7))
  show "t_promise t' \<noteq> snd (snd l)" if "l \<in> set ls" "t' \<in> set (remove1 t th)" for l t'
    using that by (rule d(8))
  show "promise r' \<noteq> snd (snd l)" if "l \<in> set ls" "(rq(i \<mapsto> r)) j = Some r'" for l j r'
    using that c [of l] d(9) [of l j r'] by (auto split: if_splits)
  show "p < length ps" if "sp = Some p" for p
    using that by (rule d(10))
qed


lemma sound_new_Golos: "sound new_Golos"
  by (simp add: sound_def parts_def new_Golos_def)

lemma settle_sel [simp]:
  "thens (settle k st g) = thens g"
  "requests (settle k st g) = requests g"
  "callbacks (settle k st g) = callbacks g"
  "listening (settle k st g) = listening g"
  "startP (settle k st g) = startP g"
  "wire (settle k st g) = wire g"
  "ws (settle k st g) = ws g"
  by (simp_all add: settle_def Let_def split: jsval.splits pstate.splits)

lemma settle_promises_eq:
  "promises (settle k st g) =
     (if k < length (promises g) \<and> state (promises g ! k) = Pending
      then (promises g)[k := (promises g ! k)\<lparr>state := st\<rparr>]
      else promises g)"
  by (simp add: settle_def Let_def split: jsval.splits pstate.splits)

lemma settle_promises: "\<exists>c. promises (settle k st g) = (promises g)[k := c]"
proof (cases "k < length (promises g) \<and> state (promises g ! k) = Pending")
  case True
  then have "promises (settle k st g) = (promises g)[k := (promises g ! k)\<lparr>state := st\<rparr>]"
    by (simp add: settle_promises_eq)
  then show ?thesis ..
next
  case False
  then have "promises (settle k st g) = (promises g)[k := promises g ! k]"
    by (simp only: settle_promises_eq if_False list_update_id)
  then show ?thesis ..
qed

lemma sound_settle:
  assumes "sound g"
    and "\<forall>t\<in>set (thens g). t_promise t \<noteq> k"
    and "\<forall>i r. requests g i = Some r \<longrightarrow> promise r \<noteq> k"
  shows "sound (settle k st g)"
proof -
  obtain c where c: "promises (settle k st g) = (promises g)[k := c]"
    using settle_promises by blast
  from assms show ?thesis
    unfolding sound_def by (simp add: c parts_settle)
qed

lemma sound_start: "sound g \<Longrightarrow> sound (snd (start g))"
proof (cases "startP g")
  case None
  assume "sound g"
  then have "parts (thens g) (requests g) (promises g) (listening g) None"
    by (simp add: sound_def None)
  from parts_add_listeners [OF this, of "\<lparr>state = Pending, nodeback = JUndefined\<rparr>" "sockets g"]
  show ?thesis
    by (simp add: sound_def start_def None new_promise_def Let_def)
next
  case (Some p)
  assume "sound g"
  with Some show ?thesis by (simp add: start_def)
qed

lemma sound_stop: "sound g \<Longrightarrow> sound (stop g)"
proof -
  assume "sound g"
  then have "parts (thens g) (requests g) (promises g) (listening g) None"
    unfolding sound_def by (rule parts_startP_None)
  then have "parts (thens g) (requests g) (promises g)
               (filter (\<lambda>l. l \<notin> set (releases g)) (listening g)) None"
    by (rule parts_less_listening) simp
  then show ?thesis
    by (simp add: sound_def stop_def Let_def split: option.splits)
qed

lemma start_fst_bound: "sound g \<Longrightarrow> fst (start g) < length (promises (snd (start g)))"
  by (cases "startP g")
     (simp_all add: start_def new_promise_def sound_def parts_def Let_def)

lemma start_thens [simp]: "thens (snd (start g)) = thens g"
  by (simp add: start_def new_promise_def Let_def split: option.splits)

lemma sound_send: "sound g \<Longrightarrow> sound (snd (send a d callback g))"
proof -
  assume s: "sound g"
  obtain i g1 where r: "resolve_id d g = (i, g1)" by (cases "resolve_id d g")
  obtain p g2 where st: "start g1 = (p, g2)" by (cases "start g1")
  from r s have s1: "sound g1"
    by (auto simp add: resolve_id_def sound_def split: option.splits if_splits)
  with st sound_start [of g1] have s2: "sound g2" by simp
  from st start_fst_bound [OF s1] have p: "p < length (promises g2)" by simp
  let ?t = "\<lparr>t_promise = length (promises g2), t_startP = p, t_id = i, t_api = a, t_data = d,
             t_callback = callback\<rparr>"
  from s2 have "parts (thens g2) (requests g2) (promises g2) (listening g2) (startP g2)"
    by (simp add: sound_def)
  from parts_add_then [OF this, of ?t callback] p
  show ?thesis
    by (simp add: send_def r st new_promise_def sound_def)
qed

lemma find_SomeD: "find P xs = Some x \<Longrightarrow> x \<in> set xs \<and> P x"
  by (induction xs) (auto split: if_splits)

lemma sound_dispatch:
  assumes "sound g" and "t \<in> set (thens g)"
  shows "sound (dispatch t now (g\<lparr>thens := remove1 t (thens g)\<rparr>))"
proof -
  from assms(1) have i: "parts (thens g) (requests g) (promises g) (listening g) (startP g)"
    by (simp add: sound_def)
  note d = partsD [OF i]
  have fresh: "\<forall>t'\<in>set (remove1 t (thens g)). t_promise t' \<noteq> t_promise t"
    using removed_fresh [OF d(4) assms(2)] by auto
  have fresh': "\<forall>i r. requests g i = Some r \<longrightarrow> promise r \<noteq> t_promise t"
    using d(5) [of _ _ t] assms(2) by fastforce
  have s': "sound (g\<lparr>thens := remove1 t (thens g)\<rparr>)"
    using parts_forget_then [OF i, of t] by (simp add: sound_def)
  show ?thesis
  proof (cases "ws g")
    case None
    then show ?thesis
      using sound_settle [OF s', of "t_promise t"] fresh fresh'
      by (simp add: dispatch_def)
  next
    case (Some w)
    let ?r = "\<lparr>api = t_api t, data = t_data t, promise = t_promise t, start_time = now\<rparr>"
    from parts_add_request [OF i assms(2), of ?r "t_id t"] s'
    show ?thesis
      by (simp add: dispatch_def Some Let_def sound_def)
  qed
qed

lemma sound_run_then: "sound g \<Longrightarrow> sound (run_then k now g)"
proof (cases "find (\<lambda>t. t_promise t = k) (thens g)")
  case None
  assume "sound g"
  with None show ?thesis by (simp add: run_then_def)
next
  case (Some t)
  assume s: "sound g"
  from find_SomeD [OF Some] have t: "t \<in> set (thens g)" and k: "t_promise t = k" by simp_all
  from s have i: "parts (thens g) (requests g) (promises g) (listening g) (startP g)"
    by (simp add: sound_def)
  note d = partsD [OF i]
  have fresh: "\<forall>t'\<in>set (remove1 t (thens g)). t_promise t' \<noteq> k"
    using removed_fresh [OF d(4) t] k by auto
  have fresh': "\<forall>i r. requests g i = Some r \<longrightarrow> promise r \<noteq> k"
    using d(5) [of _ _ t] t k by fastforce
  have s': "sound (g\<lparr>thens := remove1 t (thens g)\<rparr>)"
    using parts_forget_then [OF i, of t] by (simp add: sound_def)
  show ?thesis
    using s sound_dispatch [OF s t, of now] sound_settle [OF s', of k] fresh fresh'
    by (simp add: run_then_def Some split: pstate.splits)
qed

lemma heardD: "heard w ev g = Some p \<Longrightarrow> (w, ev, p) \<in> set (listening g)"
  by (auto simp add: heard_def dest!: find_SomeD)

lemma sound_on_open:
  assumes "sound g" and "heard w EvOpen g = Some p"
  shows "sound (on_open w p g)"
proof -
  from assms(1) have i: "parts (thens g) (requests g) (promises g) (listening g) (startP g)"
    by (simp add: sound_def)
  note d = partsD [OF i]
  note l = heardD [OF assms(2)]
  have a: "\<forall>t\<in>set (thens g). t_promise t \<noteq> p"
    using d(8) [OF l] by simp
  have b: "\<forall>i r. requests g i = Some r \<longrightarrow> promise r \<noteq> p"
    using d(9) [OF l] by simp
  have "sound (g\<lparr>isOpen := True, listening := removeAll (w, EvOpen, p) (listening g)\<rparr>)"
    using parts_less_listening [OF i, of "removeAll (w, EvOpen, p) (listening g)"]
    by (simp add: sound_def)
  from sound_settle [OF this, of p] a b
  show ?thesis
    by (simp add: on_open_def)
qed

lemma sound_on_close:
  assumes "sound g" and "heard w EvClose g = Some p"
  shows "sound (on_close w p g)"
proof -
  from assms(1) have i: "parts (thens g) (requests g) (promises g) (listening g) (startP g)"
    by (simp add: sound_def)
  note d = partsD [OF i]
  note l = heardD [OF assms(2)]
  from assms(1) have "sound (g\<lparr>isOpen := False, ws := None\<rparr>)"
    by (simp add: sound_def)
  then have s: "sound (stop (g\<lparr>isOpen := False, ws := None\<rparr>))"
    by (rule sound_stop)
  have "thens (stop (g\<lparr>isOpen := False, ws := None\<rparr>)) = thens g"
    "requests (stop (g\<lparr>isOpen := False, ws := None\<rparr>)) = requests g"
    by (simp_all add: stop_def Let_def)
  moreover have "\<forall>t\<in>set (thens g). t_promise t \<noteq> p"
    using d(8) [OF l] by simp
  moreover have "\<forall>i r. requests g i = Some r \<longrightarrow> promise r \<noteq> p"
    using d(9) [OF l] by simp
  ultimately show ?thesis
    using sound_settle [OF s, of p] by (simp add: on_close_def)
qed

lemma sound_call_fun: "sound g \<Longrightarrow> sound (snd (call_fun f a g))"
  by (simp add: call_fun_def sound_def split: jsval.splits)


lemma sound_forget_request: "sound g \<Longrightarrow> sound (g\<lparr>requests := (requests g)(i := None)\<rparr>)"
  unfolding sound_def by (simp add: parts_forget_request)

lemma sound_onMessage:
  assumes "sound g"
    and "\<And>r. req = Inl r \<Longrightarrow> \<forall>t\<in>set (thens g). t_promise t \<noteq> promise r"
    and "\<And>r. req = Inl r \<Longrightarrow> \<forall>j r'. requests g j = Some r' \<longrightarrow> promise r' \<noteq> promise r"
  shows "sound (snd (onMessage message req g))"
proof (cases req)
  case (Inl r)
  let ?g' = "g\<lparr>requests := (requests g)(msg_id message := None)\<rparr>"
  have a: "sound (settle (promise r) st g)" for st
    using sound_settle [OF assms(1), of "promise r" st] assms(2,3) [OF Inl] by simp
  have "sound ?g'"
    using assms(1) by (rule sound_forget_request)
  from sound_settle [OF this, of "promise r"] assms(2,3) [OF Inl]
  have b: "sound (settle (promise r) st ?g')" for st
    by simp
  show ?thesis
    using assms(1) a b
    by (simp add: onMessage_def Let_def Inl sound_call_fun split: sum.splits option.splits)
next
  case (Inr sub)
  show ?thesis
    using assms(1)
    by (simp add: onMessage_def Let_def Inr sound_call_fun sound_forget_request
          split: sum.splits option.splits)
qed

lemma sound_on_message:
  assumes "sound g"
  shows "sound (snd (on_message message g))"
proof (cases "requests g (msg_id message)")
  case None
  show ?thesis
  proof (cases "callbacks g (msg_id message)")
    case n: None
    with None assms show ?thesis by (simp add: on_message_def)
  next
    case (Some sub)
    from sound_onMessage [OF sound_forget_request [OF assms, of "msg_id message"],
        of "Inr sub" message]
    show ?thesis using None Some by (simp add: on_message_def)
  qed
next
  case (Some r)
  let ?i = "msg_id message"
  let ?g1 = "g\<lparr>requests := (requests g)(?i := None)\<rparr>"
  from assms have i: "parts (thens g) (requests g) (promises g) (listening g) (startP g)"
    by (simp add: sound_def)
  note d = partsD [OF i]
  have "sound (snd (onMessage message (Inl r) ?g1))"
  proof (rule sound_onMessage [OF sound_forget_request [OF assms]])
    fix r0 assume "Inl r = (Inl r0 :: request + subscription)"
    then have r0: "r0 = r" by simp
    show "\<forall>t\<in>set (thens ?g1). t_promise t \<noteq> promise r0"
      using d(5) [OF Some] r0 by simp
    show "\<forall>j r'. requests ?g1 j = Some r' \<longrightarrow> promise r' \<noteq> promise r0"
      using d(6) [OF _ Some] r0 by (auto split: if_splits)
  qed
  then show ?thesis using Some by (simp add: on_message_def)
qed

lemma sound_thrown: "sound (snd r) \<Longrightarrow> sound (thrown r)"
  by (cases r) (simp add: thrown_def sound_def split: option.splits)

lemma sound_cstep: "sound g \<Longrightarrow> sound (cstep e g)"
  by (cases e)
     (simp_all add: sound_start sound_stop sound_send sound_run_then sound_on_open
        sound_on_close sound_thrown sound_on_message split: option.splits)

lemma sound_crun: "sound g \<Longrightarrow> sound (crun evs g)"
  unfolding crun_def
  by (induction evs arbitrary: g) (simp_all add: sound_cstep)

lemma reachable_sound: "sound (crun evs new_Golos)"
  using sound_new_Golos by (rule sound_crun)

lemma reachable_request_pending:
  assumes "requests (crun evs new_Golos) i = Some r"
  shows "promise r < length (promises (crun evs new_Golos))"
    and "state (promises (crun evs new_Golos) ! promise r) = Pending"
  using reachable_sound [of evs] assms
  unfolding sound_def parts_def pend_def by blast+

lemma reachable_then_pending:
  assumes "t \<in> set (thens (crun evs new_Golos))"
  shows "t_promise t < length (promises (crun evs new_Golos))"
    and "state (promises (crun evs new_Golos) ! t_promise t) = Pending"
    and "t_startP t < length (promises (crun evs new_Golos))"
  using reachable_sound [of evs] assms
  unfolding sound_def parts_def pend_def by blast+

subsection \<open>The message dispatcher\<close>

lemma on_message_error:
  assumes "requests g (msg_id message) = Some r"
    and "truthy (msg_error message)"
    and "promise r < length (promises g)"
    and "state (promises g ! promise r) = Pending"
  shows "\<exists>reason g'. on_message message g = (None, g')
           \<and> promises g' = (promises g)[promise r :=
                 (promises g ! promise r)\<lparr>state := Rejected (Failed reason message)\<rparr>]
           \<and> requests g' = (requests g)(msg_id message := None)
           \<and> callbacks g' = callbacks g
           \<and> thens g' = thens g"
proof -
  from assms(2) obtain m where m: "get_prop (msg_error message) ''message'' = Inr m"
    by (cases "msg_error message") simp_all
  define g1 where "g1 = g\<lparr>requests := (requests g)(msg_id message := None)\<rparr>"
  define reason where "reason = (if truthy m then m else JStr ''Failed to complete operation'')"
  have "on_message message g = (None, settle (promise r) (Rejected (Failed reason message)) g1)"
    using assms(1,2) m by (simp add: on_message_def onMessage_def Let_def g1_def reason_def)
  moreover have "promise r < length (promises g1)" "state (promises g1 ! promise r) = Pending"
    using assms(3,4) by (simp_all add: g1_def)
  then have "promises (settle (promise r) (Rejected (Failed reason message)) g1) =
               (promises g)[promise r :=
                  (promises g ! promise r)\<lparr>state := Rejected (Failed reason message)\<rparr>]"
    and "requests (settle (promise r) (Rejected (Failed reason message)) g1) =
           (requests g)(msg_id message := None)"
    and "callbacks (settle (promise r) (Rejected (Failed reason message)) g1) = callbacks g"
    and "thens (settle (promise r) (Rejected (Failed reason message)) g1) = thens g"
    by (simp_all add: settle_pending g1_def)
  ultimately show ?thesis by blast
qed

text \<open>
  Claim C3. In a state \<open>g\<close> that a client has reached, an inbound frame with an
  \<^verbatim>\<open>error\<close> member (an object, as the node sends it; any truthy value does)
  whose id is that of a pending call \<open>r\<close>: the call's promise, pending until
  then, is rejected with an error whose payload is the whole frame, the call's
  entry leaves \<^verbatim>\<open>requests\<close>, and every other promise, every other entry of
  \<^verbatim>\<open>requests\<close>, all of \<^verbatim>\<open>callbacks\<close> and the calls that still wait for the
  connection are as before.
\<close>

theorem error_frame_rejects_pending_call:
  assumes "g = crun evs new_Golos"
    and "requests g (msg_id message) = Some r"
    and "truthy (msg_error message)"
  shows "\<exists>reason g'. on_message message g = (None, g')
           \<and> promise r < length (promises g)
           \<and> state (promises g ! promise r) = Pending
           \<and> promises g' = (promises g)[promise r :=
                 (promises g ! promise r)\<lparr>state := Rejected (Failed reason message)\<rparr>]
           \<and> requests g' = (requests g)(msg_id message := None)
           \<and> callbacks g' = callbacks g
           \<and> thens g' = thens g"
proof -
  from assms(1,2) have p: "promise r < length (promises g)"
    "state (promises g ! promise r) = Pending"
    using reachable_request_pending [of evs "msg_id message" r] by simp_all
  from on_message_error [OF assms(2,3) p] p show ?thesis by blast
qed

theorem error_frame_rejects_call_7:
  "\<exists>reason g'. on_message frame_7 g_7 = (None, g')
     \<and> promise r_7 < length (promises g_7)
     \<and> state (promises g_7 ! promise r_7) = Pending
     \<and> promises g' = (promises g_7)[promise r_7 :=
           (promises g_7 ! promise r_7)\<lparr>state := Rejected (Failed reason frame_7)\<rparr>]
     \<and> requests g' = (requests g_7)(msg_id frame_7 := None)
     \<and> callbacks g' = callbacks g_7
     \<and> thens g' = thens g_7"
proof -
  have h1: "requests g_7 (msg_id frame_7) = Some r_7"
    by (simp add: g_7_def r_7_def frame_7_def d_auto_def d_seven_def d_sub_def client_defs Let_def)
  have h2: "truthy (msg_error frame_7)"
    by (simp add: frame_7_def)
  from error_frame_rejects_pending_call [OF g_7_def h1 h2]
  show ?thesis .
qed

text \<open>What the frame of the example does to the client of the example.\<close>

lemma error_frame_7_outcome:
  "map state (promises (snd (on_message frame_7 g_7))) =
     [Fulfilled JUndefined, Fulfilled JUndefined, Pending,
      Rejected (Failed (JStr ''x'') frame_7), Pending]"
  "invoked (snd (on_message frame_7 g_7)) = [(1, Err (Failed (JStr ''x'') frame_7))]"
  by (simp_all add: g_7_def frame_7_def d_auto_def d_seven_def d_sub_def client_defs Let_def)

subsection \<open>Ids\<close>

text \<open>
  Claim C4. \<^verbatim>\<open>send\<close> would use \<^verbatim>\<open>data.id\<close> whenever it is present, the value 0
  included, and leave the counter alone. \<^verbatim>\<open>data.id || this.id++\<close> takes 0 for
  absent: after one call without id, a call with \<^verbatim>\<open>id: 0\<close> goes out under id 1
  and the counter moves on to 2.
\<close>

theorem send_explicit_id_zero:
  "map (\<lambda>(w, e). env_id e)
     (wire (crun [CallSend ''database_api'' d_auto JUndefined,
                  CallSend ''database_api'' d_zero JUndefined,
                  WsOpen 0, RunThen 2 0, RunThen 3 0] new_Golos)) = [0, 1]
   \<and> id_counter (crun [CallSend ''database_api'' d_auto JUndefined,
                       CallSend ''database_api'' d_zero JUndefined,
                       WsOpen 0, RunThen 2 0, RunThen 3 0] new_Golos) = 2"
  by (simp add: client_defs d_auto_def d_zero_def Let_def)

text \<open>An id other than 0 is used as it is, and without one the counter is.\<close>

lemma resolve_id_cases:
  "n \<noteq> 0 \<Longrightarrow> resolve_id (d\<lparr>d_id := Some n\<rparr>) g = (n, g)"
  "resolve_id (d\<lparr>d_id := None\<rparr>) g = (id_counter g, g\<lparr>id_counter := id_counter g + 1\<rparr>)"
  by (simp_all add: resolve_id_def)

text \<open>No handler but \<^verbatim>\<open>send\<close> touches the counter.\<close>

lemma id_counter_settle: "id_counter (settle k st g) = id_counter g"
  by (simp add: settle_def Let_def split: jsval.splits pstate.splits)

lemma id_counter_call_fun: "id_counter (snd (call_fun f a g)) = id_counter g"
  by (simp add: call_fun_def split: jsval.splits)

lemma id_counter_thrown: "id_counter (thrown r) = id_counter (snd r)"
  by (simp add: thrown_def split: prod.splits option.splits)

lemma id_counter_onMessage: "id_counter (snd (onMessage message req g)) = id_counter g"
  by (simp add: onMessage_def Let_def id_counter_settle id_counter_call_fun
      split: sum.splits option.splits)

lemma id_counter_on_message: "id_counter (snd (on_message message g)) = id_counter g"
  by (simp add: on_message_def Let_def id_counter_onMessage split: option.splits)

lemma id_counter_dispatch: "id_counter (dispatch t now g) = id_counter g"
  by (simp add: dispatch_def Let_def id_counter_settle split: option.splits)

lemma id_counter_run_then: "id_counter (run_then k now g) = id_counter g"
  by (simp add: run_then_def id_counter_dispatch id_counter_settle
      split: option.splits pstate.splits)

lemma id_counter_on_open: "id_counter (on_open w p g) = id_counter g"
  by (simp add: on_open_def id_counter_settle)

lemma id_counter_stop: "id_counter (stop g) = id_counter g"
  by (simp add: stop_def Let_def split: option.splits)

lemma id_counter_on_close: "id_counter (on_close w p g) = id_counter g"
  by (simp add: on_close_def id_counter_settle id_counter_stop)

lemma id_counter_start: "id_counter (snd (start g)) = id_counter g"
  by (simp add: start_def new_promise_def Let_def split: option.splits)

lemma id_counter_send:
  "d_id d = None \<Longrightarrow> id_counter (snd (send a d callback g)) = id_counter g + 1"
  by (simp add: send_def resolve_id_def start_def new_promise_def Let_def
      split: option.splits prod.splits)

lemma send_id: "t_id (last (thens (snd (send a d callback g)))) = fst (resolve_id d g)"
  by (simp add: send_def new_promise_def Let_def split: prod.splits)

lemma assigned_ids_from:
  "\<forall>e\<in>set evs. no_explicit_id e \<Longrightarrow>
   assigned_ids evs g = map (\<lambda>j. id_counter g + int j) [0 ..< length (filter is_send evs)]"
proof (induction evs arbitrary: g)
  case Nil
  then show ?case by simp
next
  case (Cons e evs)
  then have ne: "no_explicit_id e" and rest: "\<forall>e\<in>set evs. no_explicit_id e" by simp_all
  note IH = Cons.IH [OF rest]
  show ?case
  proof (cases e)
    case (CallSend a d callback)
    with ne have d: "d_id d = None" by simp
    have unroll: "[0 ..< Suc n] = 0 # map Suc [0 ..< n]" for n
      by (simp add: upt_conv_Cons map_Suc_upt del: upt_Suc)
    have "assigned_ids (e # evs) g =
            id_counter g #
            map (\<lambda>j. id_counter g + 1 + int j) [0 ..< length (filter is_send evs)]"
      using d by (simp add: CallSend IH id_counter_send send_id resolve_id_def)
    also have "\<dots> =
        map (\<lambda>j. id_counter g + int j) [0 ..< Suc (length (filter is_send evs))]"
      by (simp only: unroll list.map map_map o_def) simp
    finally show ?thesis by (simp add: CallSend)
  qed (simp_all add: IH id_counter_start id_counter_stop id_counter_run_then
        id_counter_on_open id_counter_on_close id_counter_thrown id_counter_on_message
        split: option.splits)
qed

text \<open>
  Claim C5. Whatever else happens to a client in between, when no call of
  \<^verbatim>\<open>send\<close> brings an id of its own, the ids of the calls are 0, 1, 2, ... in call
  order: a strictly increasing sequence that starts at 0.
\<close>

theorem auto_ids_count_up:
  assumes "\<forall>e\<in>set evs. no_explicit_id e"
  shows "assigned_ids evs new_Golos = map int [0 ..< length (filter is_send evs)]
       \<and> sorted_wrt (<) (assigned_ids evs new_Golos)"
proof -
  have "assigned_ids evs new_Golos = map int [0 ..< length (filter is_send evs)]"
    using assigned_ids_from [OF assms, of new_Golos] by (simp add: new_Golos_def)
  then show ?thesis by (simp add: sorted_wrt_map)
qed

theorem auto_ids_three_sends:
  "assigned_ids [CallSend ''database_api'' d_auto JUndefined, WsOpen 0, RunThen 2 0,
                 CallSend ''database_api'' d_sub (JFun 1), CallStop,
                 CallSend ''follow'' d_auto (JFun 2)] new_Golos = [0, 1, 2]"
  using auto_ids_count_up [of "[CallSend ''database_api'' d_auto JUndefined, WsOpen 0,
              RunThen 2 0, CallSend ''database_api'' d_sub (JFun 1), CallStop,
              CallSend ''follow'' d_auto (JFun 2)]"]
  by (simp add: d_auto_def d_sub_def upt_rec)

subsection \<open>The connection manager\<close>

lemma startP_settle: "startP (settle k st g) = startP g"
  by (simp add: settle_def Let_def split: jsval.splits pstate.splits)

lemma startP_call_fun: "startP (snd (call_fun f a g)) = startP g"
  by (simp add: call_fun_def split: jsval.splits)

lemma startP_thrown: "startP (thrown r) = startP (snd r)"
  by (simp add: thrown_def split: prod.splits option.splits)

lemma startP_onMessage: "startP (snd (onMessage message req g)) = startP g"
  by (simp add: onMessage_def Let_def startP_settle startP_call_fun
      split: sum.splits option.splits)

lemma startP_on_message: "startP (snd (on_message message g)) = startP g"
  by (simp add: on_message_def Let_def startP_onMessage split: option.splits)

lemma startP_dispatch: "startP (dispatch t now g) = startP g"
  by (simp add: dispatch_def Let_def startP_settle split: option.splits)

lemma startP_run_then: "startP (run_then k now g) = startP g"
  by (simp add: run_then_def startP_dispatch startP_settle split: option.splits pstate.splits)

lemma startP_on_open: "startP (on_open w p g) = startP g"
  by (simp add: on_open_def startP_settle)

text \<open>Once there is a connect promise, \<^verbatim>\<open>start\<close> hands it out and does nothing.\<close>

lemma start_started: "startP g = Some p \<Longrightarrow> start g = (p, g)"
  by (simp add: start_def)

lemma startP_start: "startP (snd (start g)) = Some (fst (start g))"
  by (simp add: start_def new_promise_def Let_def split: option.splits)

lemma startP_send: "startP g = Some p \<Longrightarrow> startP (snd (send a d callback g)) = Some p"
  by (simp add: send_def resolve_id_def start_def new_promise_def Let_def
      split: option.splits prod.splits)

lemma startP_cstep:
  "startP g = Some p \<Longrightarrow> keeps_connection e \<Longrightarrow> startP (cstep e g) = Some p"
  by (cases e)
     (simp_all add: start_started startP_send startP_run_then startP_on_open
        startP_thrown startP_on_message split: option.splits)

lemma startP_crun:
  "startP g = Some p \<Longrightarrow> \<forall>e\<in>set evs. keeps_connection e \<Longrightarrow>
   startP (crun evs g) = Some p"
  unfolding crun_def
  by (induction evs arbitrary: g) (simp_all add: startP_cstep)

text \<open>
  Claim C6. After a call of \<^verbatim>\<open>start()\<close>, and whatever follows short of
  \<^verbatim>\<open>stop()\<close> and a close of the transport (the transport opening, frames, calls
  of \<^verbatim>\<open>send\<close>), so while the attempt is pending or has completed, a second
  call of \<^verbatim>\<open>start()\<close> returns the promise of the first and leaves the client as
  it is: no second transport.
\<close>

theorem start_idempotent:
  assumes "\<forall>e\<in>set evs. keeps_connection e"
  shows "start (crun evs (snd (start g))) = (fst (start g), crun evs (snd (start g)))"
  using startP_crun [OF startP_start assms] by (rule start_started)

theorem start_twice_one_transport:
  "fst (start (crun [CallSend ''database_api'' d_auto JUndefined, WsOpen 0, RunThen 2 0]
                 (snd (start new_Golos)))) = fst (start new_Golos)
   \<and> sockets (snd (start (crun [CallSend ''database_api'' d_auto JUndefined, WsOpen 0,
                                 RunThen 2 0] (snd (start new_Golos))))) = 1"
proof -
  have h: "\<forall>e\<in>set [CallSend ''database_api'' d_auto JUndefined, WsOpen 0, RunThen 2 0].
             keeps_connection e"
    by simp
  have "sockets (crun [CallSend ''database_api'' d_auto JUndefined, WsOpen 0, RunThen 2 0]
                   (snd (start new_Golos))) = 1"
    by (simp add: client_defs d_auto_def Let_def)
  with start_idempotent [OF h, of new_Golos] show ?thesis by simp
qed

subsection \<open>A call that finds no transport\<close>

text \<open>The function of a call, run with \<^verbatim>\<open>this.ws\<close> gone.\<close>

lemma dispatch_no_ws:
  assumes "ws g = None"
    and "t_promise t < length (promises g)"
    and "state (promises g ! t_promise t) = Pending"
  shows "state (promises (dispatch t now g) ! t_promise t) = Rejected ClosedWhilePending"
    and "requests (dispatch t now g) = requests g"
    and "callbacks (dispatch t now g) = callbacks g"
    and "wire (dispatch t now g) = wire g"
  using assms by (simp_all add: dispatch_def settle_pending)

text \<open>
  Claim C7. In a state \<open>g\<close> that a client has reached, let call \<open>k\<close> of
  \<^verbatim>\<open>send\<close> wait with the connect promise, which is fulfilled, and let
  \<^verbatim>\<open>this.ws\<close> be gone. When the call's function runs, the promise that
  \<^verbatim>\<open>send\<close> returned, pending until then, is rejected with the
  transport-unavailable error, and \<^verbatim>\<open>requests\<close>, \<^verbatim>\<open>callbacks\<close> and the wire
  are as before.
\<close>

theorem send_without_transport:
  assumes "g = crun evs new_Golos"
    and "find (\<lambda>t. t_promise t = k) (thens g) = Some t"
    and "state (promises g ! t_startP t) = Fulfilled v"
    and "ws g = None"
  shows "state (promises g ! k) = Pending
       \<and> state (promises (run_then k now g) ! k) = Rejected ClosedWhilePending
       \<and> requests (run_then k now g) = requests g
       \<and> callbacks (run_then k now g) = callbacks g
       \<and> wire (run_then k now g) = wire g"
proof -
  from find_SomeD [OF assms(2)] have t: "t \<in> set (thens g)" and k: "t_promise t = k"
    by simp_all
  from t assms(1) reachable_then_pending [of t evs]
  have p: "t_promise t < length (promises g)" "state (promises g ! t_promise t) = Pending"
    and sp: "t_startP t < length (promises g)"
    by simp_all
  let ?g = "g\<lparr>thens := remove1 t (thens g)\<rparr>"
  have r: "run_then k now g = dispatch t now ?g"
    using assms(2,3) sp by (simp add: run_then_def)
  from dispatch_no_ws [of ?g t now] assms(4) p k
  show ?thesis by (simp add: r)
qed

theorem send_then_stop:
  "state (promises g_stopped ! 2) = Pending
   \<and> state (promises (run_then 2 5 g_stopped) ! 2) = Rejected ClosedWhilePending
   \<and> requests (run_then 2 5 g_stopped) = requests g_stopped
   \<and> callbacks (run_then 2 5 g_stopped) = callbacks g_stopped
   \<and> wire (run_then 2 5 g_stopped) = wire g_stopped"
proof -
  have h2: "find (\<lambda>t. t_promise t = 2) (thens g_stopped) = Some t_stopped"
    by (simp add: g_stopped_def t_stopped_def d_auto_def client_defs Let_def)
  have h3: "state (promises g_stopped ! t_startP t_stopped) = Fulfilled JUndefined"
    by (simp add: g_stopped_def t_stopped_def d_auto_def client_defs Let_def)
  have h4: "ws g_stopped = None"
    by (simp add: g_stopped_def d_auto_def client_defs Let_def)
  from send_without_transport [OF g_stopped_def h2 h3 h4, of 5]
  show ?thesis .
qed

text \<open>What the call of the example comes to.\<close>

lemma stopped_call_outcome:
  "invoked (run_then 2 5 g_stopped) = [(1, Err ClosedWhilePending)]"
  "requests (run_then 2 5 g_stopped) = Map.empty"
  "callbacks (run_then 2 5 g_stopped) = Map.empty"
  "wire (run_then 2 5 g_stopped) = []"
  by (simp_all add: g_stopped_def d_auto_def client_defs Let_def)

subsection \<open>Generated methods\<close>

text \<open>
  Claim C9. The positional call of a registry entry would fill an omitted
  trailing parameter with the entry's declared default, whatever earlier calls
  were given. \<^verbatim>\<open>Object.assign(defaultParms, options)\<close> writes each call's
  arguments into the entry's one \<^verbatim>\<open>defaultParms\<close> object: for the entry with
  parameters \<^verbatim>\<open>following\<close> and \<^verbatim>\<open>limit=5\<close>, after a call with limit 9 a call
  without limit sends 9; the same call on the untouched defaults sends the
  parsed \<^verbatim>\<open>5\<close>.
\<close>

theorem specializedSend_defaults_overwritten:
  "last_params (snd (snd
     (specializedSend m_followers [JStr ''bob'', JFun 2]
        (snd (specializedSend m_followers [JStr ''alice'', JNum 9, JFun 1]
                (defaultParms parse m_followers, new_Golos)))))) =
     JArr [JStr ''bob'', JNum 9]
   \<and> last_params (snd (snd
     (specializedSend m_followers [JStr ''bob'', JFun 2]
        (defaultParms parse m_followers, new_Golos)))) =
     JArr [JStr ''bob'', parse ''5'']"
  by (simp add: specializedSend_def specializedSendWith_def bind_args_def defaultParms_def
        m_followers_def new_Golos_def send_def start_def new_promise_def resolve_id_def
        last_params_def param_name_def param_value_def upt_rec map_add_def Let_def split_beta)

text \<open>
  A first call, on the defaults as loaded, fills the omitted parameter with the
  parsed default. An argument that is falsy, such as block number 0, counts as
  omitted.
\<close>

lemma specializedSend_first_call:
  "last_params (snd (snd
     (specializedSend m_followers [JStr ''alice'', JFun 1]
        (defaultParms parse m_followers, new_Golos)))) =
     JArr [JStr ''alice'', parse ''5'']"
  "last_params (snd (snd
     (specializedSend m_followers [JStr ''alice'', JNum 0, JFun 1]
        (defaultParms parse m_followers, new_Golos)))) =
     JArr [JStr ''alice'', parse ''5'']"
  by (simp_all add: specializedSend_def specializedSendWith_def bind_args_def defaultParms_def
        m_followers_def new_Golos_def send_def start_def new_promise_def resolve_id_def
        last_params_def param_name_def param_value_def upt_rec map_add_def Let_def split_beta)

subsection \<open>Blocks without transactions, transactions without operations\<close>

lemma forEach_user_callback:
  "forEach (\<lambda>x. user_callback (Ok x)) xs s = (None, s\<lparr>trace := trace s @ map (\<lambda>x. Callback (Ok x)) xs\<rparr>)"
  by (induction xs arbitrary: s) (simp_all add: user_callback_def act_def)

text \<open>
  Claim C10. \<^verbatim>\<open>streamTransactions\<close> passes over a falsy block result and a
  block without \<^verbatim>\<open>transactions\<close> (or with a falsy one): no callback, no
  exception, nothing changes.
  \<^verbatim>\<open>streamOperations\<close> reads \<^verbatim>\<open>operations\<close> of every transaction it is given:
  a transaction whose \<^verbatim>\<open>operations\<close> is not a list makes it throw, and with a
  list it hands the operations to the callback in order.
\<close>

theorem missing_transactions_skipped_operations_required:
  "(\<not> truthy result \<or> (\<exists>v. get_prop result ''transactions'' = Inr v \<and> \<not> truthy v) \<longrightarrow>
      streamTransactions_cb callback (Ok result) s = (None, s))
   \<and> ((\<forall>xs. get_prop tx ''operations'' \<noteq> Inr (JArr xs)) \<longrightarrow>
      streamOperations_cb callback (Ok tx) s = (Some TypeError, s))
   \<and> (get_prop transaction ''operations'' = Inr (JArr ops) \<longrightarrow>
      streamOperations_cb user_callback (Ok transaction) s =
        (None, s\<lparr>trace := trace s @ map (\<lambda>operation. Callback (Ok operation)) ops\<rparr>))"
proof (intro conjI impI)
  assume "\<not> truthy result \<or> (\<exists>v. get_prop result ''transactions'' = Inr v \<and> \<not> truthy v)"
  then show "streamTransactions_cb callback (Ok result) s = (None, s)"
    by (auto simp add: streamTransactions_cb_def)
next
  assume no: "\<forall>xs. get_prop tx ''operations'' \<noteq> Inr (JArr xs)"
  show "streamOperations_cb callback (Ok tx) s = (Some TypeError, s)"
  proof (cases "get_prop tx ''operations''")
    case (Inl e)
    then have "e = TypeError" by (cases tx) simp_all
    with Inl show ?thesis by (simp add: streamOperations_cb_def)
  next
    case (Inr v)
    with no have "\<forall>xs. v \<noteq> JArr xs" by simp
    then have "js_forEach v (\<lambda>operation. callback (Ok operation)) s = (Some TypeError, s)"
      by (cases v) simp_all
    with Inr show ?thesis by (simp add: streamOperations_cb_def)
  qed
next
  assume "get_prop transaction ''operations'' = Inr (JArr ops)"
  then show "streamOperations_cb user_callback (Ok transaction) s =
        (None, s\<lparr>trace := trace s @ map (\<lambda>operation. Callback (Ok operation)) ops\<rparr>)"
    by (simp add: streamOperations_cb_def forEach_user_callback)
qed


theorem empty_block_skipped_operations_required:
  "streamTransactions_cb user_callback
     (Ok (JObj [(''witness'', JStr ''w'')])) stream_start = (None, stream_start)
   \<and> streamOperations_cb user_callback (Ok (JObj [(''ref_block_num'', JNum 1)])) stream_start =
        (Some TypeError, stream_start)
   \<and> callbacks_of (trace (snd (streamOperations_cb user_callback
        (Ok (JObj [(''operations'', JArr [JStr ''vote'', JStr ''comment''])])) stream_start))) =
        [Ok (JStr ''vote''), Ok (JStr ''comment'')]"
proof -
  have h1: "\<not> truthy (JObj [(''witness'', JStr ''w'')])
      \<or> (\<exists>v. get_prop (JObj [(''witness'', JStr ''w'')]) ''transactions'' = Inr v
              \<and> \<not> truthy v)"
    by simp
  have h2: "\<forall>xs. get_prop (JObj [(''ref_block_num'', JNum 1)]) ''operations'' \<noteq> Inr (JArr xs)"
    by simp
  have h3: "get_prop (JObj [(''operations'', JArr [JStr ''vote'', JStr ''comment''])])
              ''operations'' = Inr (JArr [JStr ''vote'', JStr ''comment''])"
    by simp
  from missing_transactions_skipped_operations_required
         [of "JObj [(''witness'', JStr ''w'')]" user_callback stream_start
             "JObj [(''ref_block_num'', JNum 1)]"
             "JObj [(''operations'', JArr [JStr ''vote'', JStr ''comment''])]"
             "[JStr ''vote'', JStr ''comment'']"]
       h1 h2 h3
  show ?thesis
    by (simp add: stream_start_def update_def act_def)
qed

subsection \<open>Cancelling a stream\<close>

lemma polls_of_append: "polls_of (xs @ ys) = polls_of xs + polls_of ys"
  by (induction xs rule: polls_of.induct) simp_all

lemma inertI:
  assumes "\<And>a s. polls_of (trace (snd (f a s))) = polls_of (trace s)"
      and "\<And>a s. f a (release s) = (fst (f a s), release (snd (f a s)))"
    shows "inert f"
  using assms by (simp add: inert_def)

lemma inert_polls: "inert f \<Longrightarrow> polls_of (trace (snd (f a s))) = polls_of (trace s)"
  by (simp add: inert_def)

lemma inert_release: "inert f \<Longrightarrow> f a (release s) = (fst (f a s), release (snd (f a s)))"
  by (simp add: inert_def)

lemma release_release: "release (release s) = release s"
  by (simp add: release_def)

lemma inert_user_callback: "inert user_callback"
  by (rule inertI) (simp_all add: user_callback_def act_def release_def polls_of_append)

lemma inert_forEach:
  assumes "inert f"
  shows "polls_of (trace (snd (forEach f xs s))) = polls_of (trace s)
       \<and> forEach f xs (release s) = (fst (forEach f xs s), release (snd (forEach f xs s)))"
proof (induction xs arbitrary: s)
  case Nil
  then show ?case by simp
next
  case (Cons x xs)
  obtain r s' where fx: "f x s = (r, s')" by (cases "f x s")
  from inert_polls [OF assms, of x s] fx have p: "polls_of (trace s') = polls_of (trace s)" by simp
  from inert_release [OF assms, of x s] fx have q: "f x (release s) = (r, release s')" by simp
  show ?case
    using Cons.IH [of s'] by (cases r) (simp_all add: fx p q)
qed

lemma inert_js_forEach:
  assumes "inert f"
  shows "polls_of (trace (snd (js_forEach v f s))) = polls_of (trace s)
       \<and> js_forEach v f (release s) = (fst (js_forEach v f s), release (snd (js_forEach v f s)))"
  using inert_forEach [OF assms] by (cases v) simp_all

lemma inert_Ok: "inert f \<Longrightarrow> inert (\<lambda>x. f (Ok x))"
  by (simp add: inert_def)

lemma inert_streamOperations_cb:
  assumes "inert callback"
  shows "inert (streamOperations_cb callback)"
proof (rule inertI)
  fix a s
  note fe = inert_js_forEach [OF inert_Ok [OF assms]]
  show "polls_of (trace (snd (streamOperations_cb callback a s))) = polls_of (trace s)"
    using inert_polls [OF assms, of _ "release s"] fe
    by (simp add: streamOperations_cb_def release_def split: cbarg.splits sum.splits)
  show "streamOperations_cb callback a (release s) =
          (fst (streamOperations_cb callback a s), release (snd (streamOperations_cb callback a s)))"
    using inert_release [OF assms] fe
    by (simp add: streamOperations_cb_def release_release split: cbarg.splits sum.splits)
qed

lemma inert_streamTransactions_cb:
  assumes "inert callback"
  shows "inert (streamTransactions_cb callback)"
proof (rule inertI)
  fix a s
  note fe = inert_js_forEach [OF inert_Ok [OF assms]]
  show "polls_of (trace (snd (streamTransactions_cb callback a s))) = polls_of (trace s)"
    using inert_polls [OF assms, of _ "release s"] fe
    by (simp add: streamTransactions_cb_def release_def split: cbarg.splits sum.splits)
  show "streamTransactions_cb callback a (release s) =
          (fst (streamTransactions_cb callback a s), release (snd (streamTransactions_cb callback a s)))"
    using inert_release [OF assms] fe
    by (simp add: streamTransactions_cb_def release_release split: cbarg.splits sum.splits)
qed

lemma inert_streamBlock_cb:
  assumes "inert callback"
  shows "inert (streamBlock_cb callback)"
proof (rule inertI)
  fix a s
  show "polls_of (trace (snd (streamBlock_cb callback a s))) = polls_of (trace s)"
    using inert_polls [OF assms, of _ "release s"]
    by (simp add: streamBlock_cb_def release_def act_def Let_def polls_of_append split: cbarg.splits)
  show "streamBlock_cb callback a (release s) =
          (fst (streamBlock_cb callback a s), release (snd (streamBlock_cb callback a s)))"
    using inert_release [OF assms]
    by (simp add: streamBlock_cb_def release_release Let_def split: cbarg.splits)
       (simp add: release_def act_def)
qed

lemma inert_block_callback: "inert (block_callback k)"
  by (cases k)
     (simp_all add: inert_user_callback inert_streamTransactions_cb inert_streamOperations_cb)

lemma inert_number_callback: "inert (number_callback k)"
proof (cases k)
  case BlockNumber
  have "inert (\<lambda>a. user_callback (map_cbarg JNum a))"
    using inert_user_callback by (simp add: inert_def)
  with BlockNumber show ?thesis by simp
qed (auto intro!: inert_streamBlock_cb inert_streamTransactions_cb inert_streamOperations_cb
        inert_user_callback)

lemma release_sel [simp]:
  "current (release s) = current s"
  "polls (release s) = polls s"
  "timers (release s) = timers s"
  "fetching (release s) = fetching s"
  "trace (release s) = trace s"
  "sb_last (release s) = sb_last s"
  "sb_current (release s) = sb_current s"
  "running (release s) = False"
  by (simp_all add: release_def)

lemma release_upd [simp]:
  "(release s)\<lparr>current := c\<rparr> = release (s\<lparr>current := c\<rparr>)"
  "(release s)\<lparr>polls := n\<rparr> = release (s\<lparr>polls := n\<rparr>)"
  "(release s)\<lparr>timers := n\<rparr> = release (s\<lparr>timers := n\<rparr>)"
  "(release s)\<lparr>fetching := ns\<rparr> = release (s\<lparr>fetching := ns\<rparr>)"
  "act a (release s) = release (act a s)"
  by (simp_all add: release_def act_def)

lemma polls_of_act [simp]:
  "polls_of (trace (act a s)) = polls_of (trace s) + polls_of [a]"
  by (simp add: act_def polls_of_append)

lemma inert_for_loop:
  assumes "inert callback"
  shows "polls_of (trace (snd (for_loop callback i blockId s))) = polls_of (trace s)
       \<and> for_loop callback i blockId (release s) =
           (fst (for_loop callback i blockId s), release (snd (for_loop callback i blockId s)))"
proof (induction "nat (blockId - i)" arbitrary: i s)
  case 0
  then have "\<not> i < blockId" by simp
  then show ?case by (simp add: for_loop.simps)
next
  case (Suc n)
  then have lt: "i < blockId" and n: "n = nat (blockId - (i + 1))" by simp_all
  note IH = Suc.hyps(1) [OF n]
  have unroll: "for_loop callback i blockId t =
      (case (if Number i \<noteq> current t then callback (Ok i) t else (None, t)) of
         (Some e, s') \<Rightarrow> (Some e, s')
       | (None, s') \<Rightarrow> for_loop callback (i + 1) blockId (s'\<lparr>current := Number i\<rparr>))" for t
    using lt by (subst for_loop.simps) simp
  show ?case
  proof (cases "Number i \<noteq> current s")
    case False
    then show ?thesis
      using IH [of "s\<lparr>current := Number i\<rparr>"]
      by (simp only: unroll [of s] unroll [of "release s"] release_sel if_False prod.case
            option.case release_upd) simp
  next
    case True
    obtain r s' where cb: "callback (Ok i) s = (r, s')" by (cases "callback (Ok i) s")
    from inert_polls [OF assms, of "Ok i" s] cb
    have p: "polls_of (trace s') = polls_of (trace s)" by simp
    from inert_release [OF assms, of "Ok i" s] cb
    have q: "callback (Ok i) (release s) = (r, release s')" by simp
    show ?thesis
    proof (cases r)
      case (Some e)
      with True show ?thesis
        by (simp only: unroll [of s] unroll [of "release s"] release_sel if_True cb q prod.case
              option.case) (simp add: p)
    next
      case None
      with True show ?thesis
        using IH [of "s'\<lparr>current := Number i\<rparr>"]
        by (simp only: unroll [of s] unroll [of "release s"] release_sel if_True cb q prod.case
              option.case release_upd) (simp add: p)
    qed
  qed
qed

lemma inert_observe:
  assumes "inert callback"
  shows "polls_of (trace (snd (observe callback blockId s))) = polls_of (trace s)
       \<and> observe callback blockId (release s) =
           (fst (observe callback blockId s), release (snd (observe callback blockId s)))"
  using inert_for_loop [OF assms, of _ blockId s]
        inert_polls [OF assms, of "Ok blockId" "s\<lparr>current := Number blockId\<rparr>"]
        inert_release [OF assms, of "Ok blockId" "s\<lparr>current := Number blockId\<rparr>"]
  by (simp add: observe_def split: cursor.splits)

lemma inert_poll_resolved:
  assumes "inert callback"
  shows "polls_of (trace (snd (poll_resolved mode ts callback result s))) = polls_of (trace s)
       \<and> poll_resolved mode ts callback result (release s) =
           (fst (poll_resolved mode ts callback result s),
            release (snd (poll_resolved mode ts callback result s)))"
proof -
  have "polls_of (trace (snd (case observe callback b s of
            (Some e, s') \<Rightarrow> (Some e, s')
          | (None, s') \<Rightarrow> (None, act (Delay ts) (s'\<lparr>timers := timers s' + 1\<rparr>))))) = polls_of (trace s)
       \<and> (case observe callback b (release s) of
            (Some e, s') \<Rightarrow> (Some e, s')
          | (None, s') \<Rightarrow> (None, act (Delay ts) (s'\<lparr>timers := timers s' + 1\<rparr>))) =
         (fst (case observe callback b s of
            (Some e, s') \<Rightarrow> (Some e, s')
          | (None, s') \<Rightarrow> (None, act (Delay ts) (s'\<lparr>timers := timers s' + 1\<rparr>))),
          release (snd (case observe callback b s of
            (Some e, s') \<Rightarrow> (Some e, s')
          | (None, s') \<Rightarrow> (None, act (Delay ts) (s'\<lparr>timers := timers s' + 1\<rparr>)))))" for b
  proof -
    obtain r s' where i: "observe callback b s = (r, s')" by (cases "observe callback b s")
    with inert_observe [OF assms, of b s]
    have i': "observe callback b (release s) = (r, release s')"
      and p: "polls_of (trace s') = polls_of (trace s)"
      by simp_all
    show ?thesis by (cases r) (simp_all add: i i' p)
  qed
  then show ?thesis by (simp add: poll_resolved_def Let_def)
qed

lemma inert_caught:
  "caught (r, release s) = release (caught (r, s))"
  "polls_of (trace (caught (r, s))) = polls_of (trace s)"
  by (cases r; simp add: caught_def)+

lemma step_release_PollResolved:
  "step k mode ts (PollResolved result) (release s) = release (step k mode ts (PollResolved result) s)"
  using inert_poll_resolved [OF inert_number_callback, of mode ts k result "s\<lparr>polls := polls s - 1\<rparr>"]
  by (simp add: inert_caught)

lemma step_release_PollRejected:
  "step k mode ts (PollRejected err) (release s) = release (step k mode ts (PollRejected err) s)"
  using inert_release [OF inert_number_callback, of k "Err err" "s\<lparr>polls := polls s - 1\<rparr>"]
  by (simp add: inert_caught poll_rejected_def)

lemma step_release_BlockReply:
  "step k mode ts (BlockReply n a) (release s) = release (step k mode ts (BlockReply n a) s)"
  using inert_release [OF inert_block_callback, of k a "s\<lparr>fetching := remove1 n (fetching s)\<rparr>"]
  by (simp add: inert_caught)

lemma release_idle: "\<not> running s \<Longrightarrow> release s = s"
  by (simp add: release_def)

lemma step_released:
  assumes "\<not> running s"
  shows "polls_of (trace (step k mode ts e s)) = polls_of (trace s) \<and> \<not> running (step k mode ts e s)"
proof (cases e)
  case (PollResolved result)
  from step_release_PollResolved [of k mode ts result s] assms
  have "step k mode ts e s = release (step k mode ts e s)" by (simp add: PollResolved release_idle)
  then have "\<not> running (step k mode ts e s)" by (metis release_sel(8))
  then show ?thesis
    using inert_poll_resolved [OF inert_number_callback, of mode ts k result "s\<lparr>polls := polls s - 1\<rparr>"]
    by (cases "poll_resolved mode ts (number_callback k) result (s\<lparr>polls := polls s - 1\<rparr>)")
       (simp add: PollResolved inert_caught)
next
  case (PollRejected err)
  from step_release_PollRejected [of k mode ts err s] assms
  have "step k mode ts e s = release (step k mode ts e s)" by (simp add: PollRejected release_idle)
  then have "\<not> running (step k mode ts e s)" by (metis release_sel(8))
  then show ?thesis
    using inert_polls [OF inert_number_callback, of k "Err err" "s\<lparr>polls := polls s - 1\<rparr>"]
    by (cases "number_callback k (Err err) (s\<lparr>polls := polls s - 1\<rparr>)")
       (simp add: PollRejected inert_caught poll_rejected_def)
next
  case TimerFired
  with assms show ?thesis by (simp add: update_def)
next
  case (BlockReply n a)
  from step_release_BlockReply [of k mode ts n a s] assms
  have "step k mode ts e s = release (step k mode ts e s)" by (simp add: BlockReply release_idle)
  then have "\<not> running (step k mode ts e s)" by (metis release_sel(8))
  then show ?thesis
    using inert_polls [OF inert_block_callback, of k a "s\<lparr>fetching := remove1 n (fetching s)\<rparr>"]
    by (cases "block_callback k a (s\<lparr>fetching := remove1 n (fetching s)\<rparr>)")
       (simp add: BlockReply inert_caught)
next
  case Cancel
  with assms show ?thesis by simp
qed

lemma run_released:
  "\<not> running s \<Longrightarrow> polls_of (trace (run k mode ts evs s)) = polls_of (trace s)"
  unfolding run_def
  by (induction evs arbitrary: s) (simp_all add: step_released)

text \<open>
  Claim C8, as stated: once the function returned by \<^verbatim>\<open>streamOperations\<close> was
  called, the callback is not invoked again, also when a poll or a block fetch
  was in flight. The function only sets \<^verbatim>\<open>running = false\<close>, which \<^verbatim>\<open>update\<close>
  alone reads. A poll in flight at the cancellation still fetches block 5 when
  it resolves, and the fetched block's operations reach the callback; so does a
  fetch that was in flight.
\<close>

theorem cancel_then_in_flight_completes:
  "callbacks_of (trace (run Operations ''head'' 200 [Cancel] stream_start)) = []
   \<and> trace (run Operations ''head'' 200 [Cancel, head 5, BlockReply 5 (Ok block_5)]
              stream_start) =
       [GetProps, GetBlock 5, Delay 200, Callback (Ok (JStr ''vote'')),
        Callback (Ok (JStr ''comment''))]
   \<and> callbacks_of (trace (run Operations ''head'' 200
                             [head 5, Cancel, BlockReply 5 (Ok block_5)] stream_start)) =
       [Ok (JStr ''vote''), Ok (JStr ''comment'')]"
  by (simp add: stream_defs block_5_def)

text \<open>
  Claim C8, amended. After the cancellation no further poll is started, whatever
  happens next: the delay that a poll in flight still sets leads into an
  \<^verbatim>\<open>update\<close> that returns at once. A poll or a block fetch that was in flight
  completes as it would have without the cancellation, callbacks included.
\<close>

theorem cancel_stops_polling_only:
  "polls_of (trace (run k mode ts (Cancel # evs) s)) = polls_of (trace s)
   \<and> step k mode ts (PollResolved result) (release s) = release (step k mode ts (PollResolved result) s)
   \<and> step k mode ts (PollRejected err) (release s) = release (step k mode ts (PollRejected err) s)
   \<and> step k mode ts (BlockReply n a) (release s) = release (step k mode ts (BlockReply n a) s)"
proof (intro conjI)
  show "polls_of (trace (run k mode ts (Cancel # evs) s)) = polls_of (trace s)"
    using run_released [of "release s" k mode ts evs] by (simp add: run_def)
qed (rule step_release_PollResolved step_release_PollRejected step_release_BlockReply)+


subsection \<open>streamBlock fetches what streamBlockNumber emits\<close>

lemma kept_refl: "kept s s"
  by (simp add: kept_def)

lemma kept_trans: "kept s s' \<Longrightarrow> kept s' s'' \<Longrightarrow> kept s s''"
  by (simp add: kept_def)

lemma kept_current': "kept (s\<lparr>current := c\<rparr>) s' \<Longrightarrow> kept s s'"
  by (simp add: kept_def)

lemma callbacks_of_append: "callbacks_of (xs @ ys) = callbacks_of xs @ callbacks_of ys"
  by (induction xs rule: callbacks_of.induct) simp_all

lemma fetches_of_append: "fetches_of (xs @ ys) = fetches_of xs @ fetches_of ys"
  by (induction xs rule: fetches_of.induct) simp_all

lemma nums_of_append: "nums_of (xs @ ys) = nums_of xs @ nums_of ys"
  by (induction xs rule: nums_of.induct) simp_all

lemma emitted_act:
  "emitted (act a s) = emitted s @ nums_of (callbacks_of [a])"
  by (simp add: emitted_def act_def callbacks_of_append nums_of_append)

lemma fetched_act:
  "fetched (act a s) = fetched s @ fetches_of [a]"
  by (simp add: fetched_def act_def fetches_of_append)

lemma emitted_upd [simp]:
  "emitted (s\<lparr>current := c\<rparr>) = emitted s"
  "emitted (s\<lparr>polls := n\<rparr>) = emitted s"
  "emitted (s\<lparr>timers := n\<rparr>) = emitted s"
  "emitted (s\<lparr>fetching := ns\<rparr>) = emitted s"
  "emitted (s\<lparr>running := b\<rparr>) = emitted s"
  by (simp_all add: emitted_def)

lemma fetched_upd [simp]:
  "fetched (s\<lparr>current := c\<rparr>) = fetched s"
  "fetched (s\<lparr>polls := n\<rparr>) = fetched s"
  "fetched (s\<lparr>timers := n\<rparr>) = fetched s"
  "fetched (s\<lparr>fetching := ns\<rparr>) = fetched s"
  "fetched (s\<lparr>running := b\<rparr>) = fetched s"
  "fetched (s\<lparr>sb_current := c\<rparr>) = fetched s"
  "fetched (s\<lparr>sb_last := c\<rparr>) = fetched s"
  by (simp_all add: fetched_def)

lemma act_sel [simp]:
  "current (act a s) = current s"
  "polls (act a s) = polls s"
  "timers (act a s) = timers s"
  "fetching (act a s) = fetching s"
  "running (act a s) = running s"
  "sb_last (act a s) = sb_last s"
  "sb_current (act a s) = sb_current s"
  by (simp_all add: act_def)

lemma remdups_adj_snoc:
  "remdups_adj (xs @ [x]) =
     (if xs \<noteq> [] \<and> last xs = x then remdups_adj xs else remdups_adj xs @ [x])"
  by (induction xs rule: remdups_adj.induct) auto

text \<open>One number delivered to both callbacks.\<close>

lemma follows_number:
  assumes "follows s1 s2"
  shows "\<exists>s1' s2'. number_callback BlockNumber (Ok n) s1 = (None, s1')
           \<and> number_callback Block (Ok n) s2 = (None, s2')
           \<and> follows s1' s2' \<and> kept s1 s1' \<and> kept s2 s2'"
  using assms
  by (auto simp add: follows_def user_callback_def streamBlock_cb_def Let_def emitted_act
        fetched_act remdups_adj_snoc kept_def)

lemma follows_current:
  "follows s1 s2 \<Longrightarrow> follows (s1\<lparr>current := c\<rparr>) (s2\<lparr>current := c\<rparr>)"
  by (simp add: follows_def)

lemma follows_for_loop:
  assumes "follows s1 s2"
  shows "\<exists>s1' s2'. for_loop (number_callback BlockNumber) i blockId s1 = (None, s1')
           \<and> for_loop (number_callback Block) i blockId s2 = (None, s2')
           \<and> follows s1' s2' \<and> kept s1 s1' \<and> kept s2 s2'"
  using assms
proof (induction "nat (blockId - i)" arbitrary: i s1 s2)
  case 0
  then have "\<not> i < blockId" by simp
  with 0 show ?case by (simp add: for_loop.simps kept_refl)
next
  case (Suc n)
  then have lt: "i < blockId" and n: "n = nat (blockId - (i + 1))" by simp_all
  note IH = Suc.hyps(1) [OF n]
  have unroll: "for_loop callback i blockId t =
      (case (if Number i \<noteq> current t then callback (Ok i) t else (None, t)) of
         (Some e, s') \<Rightarrow> (Some e, s')
       | (None, s') \<Rightarrow> for_loop callback (i + 1) blockId (s'\<lparr>current := Number i\<rparr>))"
    for t and callback :: "int cbarg \<Rightarrow> stream eff"
    using lt by (subst for_loop.simps) simp
  from Suc.prems have cur: "current s2 = current s1" by (simp add: follows_def)
  show ?case
  proof (cases "Number i \<noteq> current s1")
    case False
    from IH [OF follows_current [OF Suc.prems, of "Number i"]]
    show ?thesis using False cur by (auto simp add: unroll intro: kept_current')
  next
    case True
    from follows_number [OF Suc.prems, of i] obtain s1' s2'
      where a: "number_callback BlockNumber (Ok i) s1 = (None, s1')"
        and b: "number_callback Block (Ok i) s2 = (None, s2')"
        and f: "follows s1' s2'" and k1: "kept s1 s1'" and k2: "kept s2 s2'"
      by blast
    from IH [OF follows_current [OF f, of "Number i"]]
    show ?thesis using True cur a b
      by (auto simp add: unroll intro: kept_trans [OF k1] kept_trans [OF k2] kept_current')
  qed
qed

lemma follows_observe:
  assumes "follows s1 s2"
  shows "\<exists>s1' s2'. observe (number_callback BlockNumber) blockId s1 = (None, s1')
           \<and> observe (number_callback Block) blockId s2 = (None, s2')
           \<and> follows s1' s2' \<and> kept s1 s1' \<and> kept s2 s2'"
proof -
  from assms have cur: "current s2 = current s1" by (simp add: follows_def)
  show ?thesis
  proof (cases "Number blockId \<noteq> current s1")
    case False
    with assms cur show ?thesis by (simp add: observe_def kept_refl)
  next
    case True
    show ?thesis
    proof (cases "truthy_cursor (current s1)")
      case t: True
      then obtain c where c: "current s1 = Number c" by (cases "current s1") simp_all
      from follows_for_loop [OF assms, of c blockId] show ?thesis
        using True t c cur by (simp add: observe_def)
    next
      case f: False
      from follows_number [OF follows_current [OF assms, of "Number blockId"], of blockId]
      show ?thesis using True f cur by (auto simp add: observe_def intro: kept_current')
    qed
  qed
qed

lemma follows_act:
  "follows s1 s2 \<Longrightarrow> nums_of (callbacks_of [a]) = [] \<Longrightarrow> fetches_of [b] = [] \<Longrightarrow>
   follows (act a s1) (act b s2)"
  by (simp add: follows_def emitted_act fetched_act)

lemma follows_act2:
  "follows s1 s2 \<Longrightarrow> fetches_of [b] = [] \<Longrightarrow> follows s1 (act b s2)"
  by (simp add: follows_def emitted_act fetched_act)

lemma in_step_step:
  assumes "in_step s1 s2"
  shows "in_step (step BlockNumber mode ts e s1) (step Block mode ts e s2)"
proof -
  from assms have f: "follows s1 s2" and le: "polls s1 + timers s1 \<le> 1"
    and run: "running s2 = running s1 \<or> polls s1 + timers s1 = 0"
    by (simp_all add: in_step_def)
  from f have p: "polls s2 = polls s1" and t: "timers s2 = timers s1"
    and nf: "fetching s1 = []"
    by (simp_all add: follows_def)
  show ?thesis
  proof (cases e)
    case (PollResolved result)
    define b where "b = (if mode = ''irreversible''
                     then last_irreversible_block_num result
                     else head_block_number result)"
    show ?thesis
    proof (cases "polls s1 = 0")
      case True
      with assms p show ?thesis by (simp add: PollResolved)
    next
      case False
      with le have t0: "timers s1 = 0" and p1: "polls s1 = 1" by simp_all
      from f have f': "follows (s1\<lparr>polls := polls s1 - 1\<rparr>) (s2\<lparr>polls := polls s1 - 1\<rparr>)"
        by (simp add: follows_def)
      from follows_observe [OF f', of b] obtain s1' s2'
        where a: "observe (number_callback BlockNumber) b (s1\<lparr>polls := polls s1 - 1\<rparr>) = (None, s1')"
          and c: "observe (number_callback Block) b (s2\<lparr>polls := polls s1 - 1\<rparr>) = (None, s2')"
          and g: "follows s1' s2'"
          and k1: "kept (s1\<lparr>polls := polls s1 - 1\<rparr>) s1'"
          and k2: "kept (s2\<lparr>polls := polls s1 - 1\<rparr>) s2'"
        by auto
      from g have "follows (act (Delay ts) (s1'\<lparr>timers := timers s1' + 1\<rparr>))
                           (act (Delay ts) (s2'\<lparr>timers := timers s2' + 1\<rparr>))"
        by (intro follows_act) (simp_all add: follows_def)
      then show ?thesis
        using False p a c k1 k2 run p1 t0
        by (simp add: PollResolved poll_resolved_def Let_def b_def [symmetric] caught_def
              in_step_def kept_def)
    qed
  next
    case (PollRejected err)
    show ?thesis
    proof (cases "polls s1 = 0")
      case True
      with assms p show ?thesis by (simp add: PollRejected)
    next
      case False
      with le have t0: "timers s1 = 0" and p1: "polls s1 = 1" by simp_all
      from f have "follows (act (Callback (Err err)) (s1\<lparr>polls := 0\<rparr>))
                           (act (Callback (Err err)) (release (s2\<lparr>polls := 0\<rparr>)))"
        by (intro follows_act) (simp_all add: follows_def release_def)
      then show ?thesis
        using p p1 t0 t
        by (simp add: PollRejected poll_rejected_def user_callback_def streamBlock_cb_def
              caught_def in_step_def release_def)
    qed
  next
    case TimerFired
    show ?thesis
    proof (cases "timers s1 = 0")
      case True
      with assms t show ?thesis by (simp add: TimerFired)
    next
      case False
      with le run have p0: "polls s1 = 0" and t1: "timers s1 = 1" and r: "running s2 = running s1"
        by simp_all
      from f have "follows (act GetProps (s1\<lparr>timers := 0, polls := 1\<rparr>))
                           (act GetProps (s2\<lparr>timers := 0, polls := 1\<rparr>))"
        by (intro follows_act) (simp_all add: follows_def)
      moreover from f have "follows (s1\<lparr>timers := 0\<rparr>) (s2\<lparr>timers := 0\<rparr>)"
        by (simp add: follows_def)
      ultimately show ?thesis
        using t p p0 t1 r by (simp add: TimerFired update_def in_step_def)
    qed
  next
    case (BlockReply n a)
    show ?thesis
    proof (cases "n \<in> set (fetching s2)")
      case False
      with assms nf show ?thesis by (simp add: BlockReply)
    next
      case True
      from f have "follows s1 (act (Callback a) (s2\<lparr>fetching := remove1 n (fetching s2)\<rparr>))"
        by (intro follows_act2) (simp_all add: follows_def)
      then show ?thesis
        using True nf le run
        by (simp add: BlockReply user_callback_def caught_def in_step_def)
    qed
  next
    case Cancel
    from f have "follows (release s1) (release s2)"
      by (simp add: follows_def release_def)
    then show ?thesis
      using le run by (simp add: Cancel in_step_def release_def)
  qed
qed

lemma in_step_run:
  "in_step s1 s2 \<Longrightarrow> in_step (run BlockNumber mode ts evs s1) (run Block mode ts evs s2)"
  unfolding run_def
  by (induction evs arbitrary: s1 s2) (simp_all add: in_step_step)

lemma in_step_start: "in_step stream_start stream_start"
  by (simp add: in_step_def follows_def stream_start_def update_def act_def emitted_def fetched_def)

text \<open>
  Claim C2, as stated: on the polls 5, 5, 8 \<^verbatim>\<open>streamBlock\<close> calls \<^verbatim>\<open>getBlock\<close>
  twice, for 5 and for 8, and never for 6 or 7. It calls it for 6 and for 7.
\<close>

theorem streamBlock_5_5_8_fetches_6_and_7:
  "fetched (run Block ''head'' 200 (polled [5, 5, 8]) stream_start) \<noteq> [5, 8]
   \<and> 6 \<in> set (fetched (run Block ''head'' 200 (polled [5, 5, 8]) stream_start))
   \<and> 7 \<in> set (fetched (run Block ''head'' 200 (polled [5, 5, 8]) stream_start))"
  by (simp add: fetched_def stream_defs for_loop.simps)

text \<open>
  Claim C2, amended. On any events, \<^verbatim>\<open>streamBlock\<close> calls \<^verbatim>\<open>getBlock\<close> for the
  numbers that \<^verbatim>\<open>streamBlockNumber\<close> gives its callback on the same events, in
  that order, a number that repeats at once fetched once. On the polls 5, 5, 8
  the first three fetches are 5 and the synthesized 6 and 7.
\<close>

theorem streamBlock_fetches_emitted:
  "fetched (run Block mode ts evs stream_start) =
     remdups_adj (emitted (run BlockNumber mode ts evs stream_start))
   \<and> take 3 (fetched (run Block ''head'' 200 (polled [5, 5, 8]) stream_start)) = [5, 6, 7]"
proof
  show "fetched (run Block mode ts evs stream_start) =
          remdups_adj (emitted (run BlockNumber mode ts evs stream_start))"
    using in_step_run [OF in_step_start, of mode ts evs]
    by (simp add: in_step_def follows_def)
  show "take 3 (fetched (run Block ''head'' 200 (polled [5, 5, 8]) stream_start)) = [5, 6, 7]"
    by (simp add: fetched_def stream_defs for_loop.simps)
qed

end
